theory Spec2Isabelle
  imports Complex_Main "HOL-Library.Sublist"
begin

unbundle bit_operations_syntax

section \<open>Configuration\<close>

text \<open>
  The constants of \<^verbatim>\<open>cprorealtime.py\<close> that the control logic reads. Both queues
  are built with \<^verbatim>\<open>Queue(maxsize=2)\<close>.
\<close>

definition FRAME_SKIP :: int where
  "FRAME_SKIP = 2"

definition QUEUE_MAXSIZE :: nat where
  "QUEUE_MAXSIZE = 2"

section \<open>Strings\<close>

text \<open>
  Labels are the class names of the detection model. \<^verbatim>\<open>str.lower()\<close> is modelled on
  characters as bytes: the 26 upper-case ASCII letters move down by 32, every other byte
  stays. (Outside ASCII, Python's \<^verbatim>\<open>lower()\<close> yields an ASCII letter only for the
  Kelvin sign and the dotted capital I, and neither \<^verbatim>\<open>k\<close> nor \<^verbatim>\<open>i\<close> occurs in the
  two tokens the program searches for.)
\<close>

definition lower_char :: "char \<Rightarrow> char" where
  "lower_char c =
     (if (65::nat) \<le> of_char c \<and> of_char c \<le> (90::nat)
      then char_of (of_char c + (32::nat)) else c)"

definition lower :: "string \<Rightarrow> string" where
  "lower s = map lower_char s"

text \<open>
  \<^verbatim>\<open>needle in haystack\<close> on strings: the needle starts at some position of the
  haystack (the empty needle is found everywhere, also in the empty string).
\<close>

definition startswith :: "string \<Rightarrow> string \<Rightarrow> bool" where
  "startswith hay needle = (take (length needle) hay = needle)"

fun str_in :: "string \<Rightarrow> string \<Rightarrow> bool" where
  "str_in needle [] = (needle = [])"
| "str_in needle (c # cs) = (startswith (c # cs) needle \<or> str_in needle cs)"

section \<open>The access decision of \<^verbatim>\<open>process_frames\<close>\<close>

definition ACCESS_GRANTED :: string where
  "ACCESS_GRANTED = ''ACCESS_GRANTED''"

definition ACCESS_DENIED :: string where
  "ACCESS_DENIED = ''ACCESS_DENIED''"

definition CHECKING :: string where
  "CHECKING = ''CHECKING''"

definition has_helmet :: "string list \<Rightarrow> bool" where
  "has_helmet labels = list_ex (\<lambda>label. str_in ''helmet'' (lower label)) labels"

definition has_vest :: "string list \<Rightarrow> bool" where
  "has_vest labels = list_ex (\<lambda>label. str_in ''vest'' (lower label)) labels"

definition access_status :: "string list \<Rightarrow> string" where
  "access_status labels =
     (if has_helmet labels \<and> has_vest labels then ACCESS_GRANTED else ACCESS_DENIED)"

subsection \<open>The specification's reading of a case-insensitive substring\<close>

text \<open>
  Two characters are the same letter up to case when they are equal or when one is an
  upper-case ASCII letter and the other is the lower-case letter 32 places above it.
  A token occurs in a label case-insensitively when a contiguous piece of the label
  agrees with the token character by character up to case.
\<close>

definition upper_of :: "char \<Rightarrow> char \<Rightarrow> bool" where
  "upper_of u l = ((65::nat) \<le> of_char u \<and> of_char u \<le> (90::nat) \<and>
                   (of_char l :: nat) = of_char u + 32)"

definition same_letter :: "char \<Rightarrow> char \<Rightarrow> bool" where
  "same_letter a b = (a = b \<or> upper_of a b \<or> upper_of b a)"

definition occurs_caseless :: "string \<Rightarrow> string \<Rightarrow> bool" where
  "occurs_caseless token label =
     (\<exists>before piece after. label = before @ piece @ after \<and> list_all2 same_letter piece token)"

section \<open>The detector object\<close>

text \<open>
  Frames are identified by a number: the pixels play no part in the control logic.
  A result is the triple that \<^verbatim>\<open>process_frames\<close> puts on the result queue. Wall-clock
  readings of \<^verbatim>\<open>time.time()\<close> are real numbers of seconds, and every reading is an
  input of the function that takes it.
\<close>

type_synonym frame = nat

type_synonym time = real

record result =
  annotated :: frame
  status :: string
  labels :: "string list"

datatype py_exn = SerialException | RuntimeError | ZeroDivisionError | KeyboardInterrupt
  | OtherException

text \<open>What a call into the camera, display or serial library did.\<close>

datatype outcome = Done | Raises py_exn

datatype serial = Serial (is_open: bool)

text \<open>
  The observable actions of the program, in the order they happen. \<open>SendCall\<close> marks
  an invocation of \<^verbatim>\<open>send_to_esp32\<close>; \<open>SerialWrite\<close> carries the text handed to
  \<^verbatim>\<open>ser.write\<close>; \<open>FramePut\<close> is a completed \<^verbatim>\<open>frame_queue.put\<close>. A printed
  line that ends with the text of an exception is recorded without that text.
\<close>

datatype effect =
    Print string
  | SendCall string
  | SerialWrite string
  | SerialFlush
  | ImShow frame
  | FramePut frame
  | CapRelease
  | SerClose
  | DestroyAllWindows

record detector =
  ser :: "serial option"
  cap_opened :: bool
  frame_queue :: "frame list"
  result_queue :: "result list"
  running :: bool
  frame_count :: int
  last_detection_time :: time
  current_status :: string
  fps_start_time :: time
  fps_frame_count :: int
  current_fps :: real
  trace :: "effect list"

definition emit :: "effect \<Rightarrow> detector \<Rightarrow> detector" where
  "emit ev d = d\<lparr>trace := trace d @ [ev]\<rparr>"

subsection \<open>\<^verbatim>\<open>__init__\<close>\<close>

record init_env =
  model_load :: outcome
  cam_opens :: bool
  serial_open :: outcome
  now_detection :: time
  now_fps_start :: time

definition new_detector :: "serial option \<Rightarrow> effect \<Rightarrow> init_env \<Rightarrow> detector" where
  "new_detector s ev e =
     \<lparr>ser = s, cap_opened = True, frame_queue = [], result_queue = [], running = True,
      frame_count = 0, last_detection_time = now_detection e, current_status = CHECKING,
      fps_start_time = now_fps_start e, fps_frame_count = 0, current_fps = 0,
      trace = [ev]\<rparr>"

definition init :: "init_env \<Rightarrow> py_exn + detector" where
  "init e =
     (case model_load e of
        Raises ex \<Rightarrow> Inl ex
      | Done \<Rightarrow>
          if \<not> cam_opens e then Inl RuntimeError
          else (case serial_open e of
                  Done \<Rightarrow>
                    Inr (new_detector (Some (Serial True))
                           (Print ''Serial port COM5 opened successfully'') e)
                | Raises SerialException \<Rightarrow>
                    Inr (new_detector None (Print ''Serial error: '') e)
                | Raises ex \<Rightarrow> Inl ex))"

subsection \<open>The bounded queues\<close>

text \<open>
  A queue is kept in the state of the worker that fills it; what its consumer takes out
  is an input of the filling worker, and what a poll finds is an input of the consumer.
  \<^verbatim>\<open>Queue.full()\<close> and \<^verbatim>\<open>Queue.put(item)\<close> with its default \<^verbatim>\<open>block=True\<close>: on a
  full queue \<open>put\<close> does not return (\<open>None\<close>).
\<close>

definition full :: "'a list \<Rightarrow> bool" where
  "full q = (QUEUE_MAXSIZE \<le> length q)"

definition put :: "'a list \<Rightarrow> 'a \<Rightarrow> 'a list option" where
  "put q x = (if full q then None else Some (q @ [x]))"

subsection \<open>\<^verbatim>\<open>capture_frames\<close>\<close>

text \<open>
  One pass of the capture loop. The inference worker is the only consumer of the frame
  queue; \<open>taken_before\<close> is how many frames it has removed since the capture worker last
  looked at the queue, \<open>taken_between\<close> how many it removes between the \<^verbatim>\<open>full()\<close> test
  and the \<^verbatim>\<open>put\<close>.
\<close>

record capture_env =
  cap_read :: "frame option"
  taken_before :: nat
  taken_between :: nat

datatype stage = Continue detector | Exited detector | Blocked

definition capture_iter :: "detector \<Rightarrow> capture_env \<Rightarrow> stage" where
  "capture_iter d e =
     (if \<not> running d then Exited d
      else case cap_read e of
        None \<Rightarrow> Exited (emit (Print ''Error: Failed to capture frame'') d)
      | Some frame \<Rightarrow>
          if frame_count d mod FRAME_SKIP = 0 then
            (let q = drop (taken_before e) (frame_queue d) in
             if \<not> full q then
               (case put (drop (taken_between e) q) frame of
                  None \<Rightarrow> Blocked
                | Some q' \<Rightarrow>
                    Continue (emit (FramePut frame)
                                (d\<lparr>frame_queue := q', frame_count := frame_count d + 1\<rparr>)))
             else Continue (d\<lparr>frame_queue := q, frame_count := frame_count d + 1\<rparr>))
          else Continue (d\<lparr>frame_count := frame_count d + 1\<rparr>))"

text \<open>The loop over a finite sequence of camera reads.\<close>

fun capture_frames :: "detector \<Rightarrow> capture_env list \<Rightarrow> stage" where
  "capture_frames d [] = Continue d"
| "capture_frames d (e # es) =
     (case capture_iter d e of
        Continue d' \<Rightarrow> capture_frames d' es
      | Exited d' \<Rightarrow> Exited d'
      | Blocked \<Rightarrow> Blocked)"

subsection \<open>\<^verbatim>\<open>process_frames\<close>\<close>

text \<open>
  One pass of the inference loop. \<open>frame_polled\<close> is what the poll of the frame queue
  returned (\<open>None\<close> when the queue was empty), \<open>boxes\<close> are the class names of the
  detections of the model (\<open>None\<close> when \<^verbatim>\<open>results.boxes\<close> is \<^verbatim>\<open>None\<close>),
  \<open>plotted\<close> is what \<^verbatim>\<open>results.plot()\<close> returns. The main loop is the only consumer
  of the result queue, and its removals are inputs as in the capture stage.
\<close>

record process_env =
  frame_polled :: "frame option"
  boxes :: "string list option"
  plotted :: frame
  results_taken_before :: nat
  results_taken_between :: nat

definition process_iter :: "detector \<Rightarrow> process_env \<Rightarrow> stage" where
  "process_iter d e =
     (if \<not> running d then Exited d
      else case frame_polled e of
        None \<Rightarrow> Continue d
      | Some frame \<Rightarrow>
          (let ls = (case boxes e of Some names \<Rightarrow> names | None \<Rightarrow> []);
               r = \<lparr>annotated = plotted e, status = access_status ls, labels = ls\<rparr>;
               q = drop (results_taken_before e) (result_queue d)
           in if \<not> full q then
                (case put (drop (results_taken_between e) q) r of
                   None \<Rightarrow> Blocked
                 | Some q' \<Rightarrow> Continue (d\<lparr>result_queue := q'\<rparr>))
              else Continue (d\<lparr>result_queue := q\<rparr>)))"

subsection \<open>\<^verbatim>\<open>send_to_esp32\<close>\<close>

text \<open>
  A function that may raise returns the exception, if any, together with the state at
  that moment: \<^verbatim>\<open>run\<close> still cleans up after an exception.
\<close>

definition newline :: string where
  "newline = [CHR 0x0A]"

definition send_to_esp32 :: "detector \<Rightarrow> string \<Rightarrow> outcome \<Rightarrow> outcome \<Rightarrow> py_exn option \<times> detector" where
  "send_to_esp32 d st wr fl =
     (let d0 = emit (SendCall st) d in
      case ser d0 of
        None \<Rightarrow> (None, d0)
      | Some s \<Rightarrow>
          if \<not> is_open s then (None, d0)
          else (case wr of
                  Raises SerialException \<Rightarrow>
                    (None, emit (Print ''Serial communication error: '') d0)
                | Raises ex \<Rightarrow> (Some ex, d0)
                | Done \<Rightarrow>
                    (let d1 = emit (SerialWrite (st @ newline)) d0 in
                     case fl of
                       Raises SerialException \<Rightarrow>
                         (None, emit (Print ''Serial communication error: '') d1)
                     | Raises ex \<Rightarrow> (Some ex, d1)
                     | Done \<Rightarrow>
                         (None, emit (Print (''Sent to ESP32: '' @ st)) (emit SerialFlush d1)))))"

subsection \<open>\<^verbatim>\<open>calculate_fps\<close>\<close>

text \<open>
  \<open>now\<close> is the clock reading taken when the counter reaches 30. Python's division
  raises on a zero divisor.
\<close>

definition calculate_fps :: "detector \<Rightarrow> time \<Rightarrow> py_exn option \<times> detector" where
  "calculate_fps d now =
     (let d1 = d\<lparr>fps_frame_count := fps_frame_count d + 1\<rparr> in
      if 30 \<le> fps_frame_count d1 then
        (let elapsed_time = now - fps_start_time d1 in
         if elapsed_time = 0 then (Some ZeroDivisionError, d1)
         else (None, d1\<lparr>current_fps := real_of_int (fps_frame_count d1) / elapsed_time,
                        fps_start_time := now, fps_frame_count := 0\<rparr>))
      else (None, d1))"

subsection \<open>\<^verbatim>\<open>run\<close>, \<^verbatim>\<open>cleanup\<close> and the main program\<close>

text \<open>
  The inputs of one pass of the main loop: what the poll of the result queue returned,
  the clock readings in program order, what the serial port did on each of the two
  possible sends, and the key code of \<^verbatim>\<open>cv2.waitKey(1)\<close>. \<open>interrupt\<close> says that a
  \<^verbatim>\<open>KeyboardInterrupt\<close> arrives during the pass; it is taken at the start of the pass.
  The three \<^verbatim>\<open>cv2.putText\<close> overlays only draw on the frame and are left out.
\<close>

record iter_env =
  interrupt :: bool
  polled :: "result option"
  send1_write :: outcome
  send1_flush :: outcome
  now_transition :: time
  now_fps :: time
  key :: int
  now_check :: time
  send2_write :: outcome
  send2_flush :: outcome
  now_refresh :: time

definition consume :: "detector \<Rightarrow> iter_env \<Rightarrow> py_exn option \<times> detector" where
  "consume d e =
     (case polled e of
        None \<Rightarrow> (None, d)
      | Some r \<Rightarrow>
          (let (x1, d1) =
                 (if status r \<noteq> current_status d then
                    (case send_to_esp32 d (status r) (send1_write e) (send1_flush e) of
                       (Some ex, d') \<Rightarrow> (Some ex, d')
                     | (None, d') \<Rightarrow>
                         (None, d'\<lparr>current_status := status r,
                                     last_detection_time := now_transition e\<rparr>))
                  else (None, d))
           in case x1 of
                Some ex \<Rightarrow> (Some ex, d1)
              | None \<Rightarrow>
                  (case calculate_fps d1 (now_fps e) of
                     (Some ex, d2) \<Rightarrow> (Some ex, d2)
                   | (None, d2) \<Rightarrow> (None, emit (ImShow (annotated r)) d2))))"

datatype signal = Looping | Stopped | Raised py_exn

definition main_iter :: "detector \<Rightarrow> iter_env \<Rightarrow> signal \<times> detector" where
  "main_iter d e =
     (if interrupt e then (Raised KeyboardInterrupt, d)
      else case consume d e of
        (Some ex, d1) \<Rightarrow> (Raised ex, d1)
      | (None, d1) \<Rightarrow>
          if key e AND 0xFF = 113 then (Stopped, d1)
          else if now_check e - last_detection_time d1 > 5 then
            (case send_to_esp32 d1 (current_status d1) (send2_write e) (send2_flush e) of
               (Some ex, d2) \<Rightarrow> (Raised ex, d2)
             | (None, d2) \<Rightarrow> (Looping, d2\<lparr>last_detection_time := now_refresh e\<rparr>))
          else (Looping, d1))"

text \<open>
  The \<^verbatim>\<open>while self.running\<close> loop over a finite sequence of passes. \<open>Looping\<close> says
  that the loop has not ended when the sequence is used up.
\<close>

fun run_loop :: "detector \<Rightarrow> iter_env list \<Rightarrow> signal \<times> detector" where
  "run_loop d [] = (if running d then (Looping, d) else (Stopped, d))"
| "run_loop d (e # es) =
     (if \<not> running d then (Stopped, d)
      else case main_iter d e of
        (Looping, d') \<Rightarrow> run_loop d' es
      | (sig, d') \<Rightarrow> (sig, d'))"

definition cleanup :: "detector \<Rightarrow> detector" where
  "cleanup d =
     (let d1 = emit (Print ''Cleaning up resources...'') d;
          d2 = d1\<lparr>running := False\<rparr>;
          d3 = (if cap_opened d2 then (emit CapRelease d2)\<lparr>cap_opened := False\<rparr> else d2);
          d4 = (case ser d3 of
                  None \<Rightarrow> d3
                | Some s \<Rightarrow>
                    if is_open s then (emit SerClose d3)\<lparr>ser := Some (Serial False)\<rparr> else d3);
          d5 = emit DestroyAllWindows d4
      in emit (Print ''Cleanup complete'') d5)"

definition run :: "detector \<Rightarrow> iter_env list \<Rightarrow> signal \<times> detector" where
  "run d es =
     (let d0 = emit (Print ''Real-time detection started.'') d in
      case run_loop d0 es of
        (Looping, d1) \<Rightarrow> (Looping, d1)
      | (Stopped, d1) \<Rightarrow> (Stopped, cleanup d1)
      | (Raised KeyboardInterrupt, d1) \<Rightarrow>
          (Stopped, cleanup (emit (Print ''Interrupted by user'') d1))
      | (Raised ex, d1) \<Rightarrow> (Raised ex, cleanup d1))"

text \<open>
  The \<^verbatim>\<open>__main__\<close> block: what the process did (its effects in order) and, when the
  detector was built, its final state. A run whose loop has not ended yet has not
  reached the \<^verbatim>\<open>finally\<close> clause. \<^verbatim>\<open>except Exception\<close> does not catch a
  \<^verbatim>\<open>KeyboardInterrupt\<close>.
\<close>

datatype program_end = Aborted "effect list" | Unfinished detector | Ended detector

definition program :: "init_env \<Rightarrow> iter_env list \<Rightarrow> program_end" where
  "program ie es =
     (case init ie of
        Inl KeyboardInterrupt \<Rightarrow> Aborted [DestroyAllWindows]
      | Inl ex \<Rightarrow> Aborted [Print ''Error: '', DestroyAllWindows]
      | Inr d \<Rightarrow>
          (case run d es of
             (Looping, d') \<Rightarrow> Unfinished d'
           | (Stopped, d') \<Rightarrow> Ended (emit DestroyAllWindows d')
           | (Raised KeyboardInterrupt, d') \<Rightarrow> Ended (emit DestroyAllWindows d')
           | (Raised ex, d') \<Rightarrow> Ended (emit DestroyAllWindows (emit (Print ''Error: '') d'))))"

section \<open>Auxiliary notions for the statements\<close>

text \<open>A token made of lower-case ASCII letters only.\<close>

definition lowercase :: "string \<Rightarrow> bool" where
  "lowercase tok = (\<forall>t \<in> set tok. (97::nat) \<le> of_char t \<and> of_char t \<le> (122::nat))"

text \<open>
  \<^verbatim>\<open>calculate_fps\<close> is called once for every consumed result. \<open>fps_calls\<close> is that
  sequence of calls, each with the clock reading it would take; an exception ends it.
\<close>

fun fps_calls :: "detector \<Rightarrow> time list \<Rightarrow> py_exn option \<times> detector" where
  "fps_calls d [] = (None, d)"
| "fps_calls d (now # nows) =
     (case calculate_fps d now of
        (Some ex, d') \<Rightarrow> (Some ex, d')
      | (None, d') \<Rightarrow> fps_calls d' nows)"

text \<open>
  The specification's windows: a window closes at every 30th consumed result. After the
  calls \<open>nows\<close> the current window started at the reading of the last call whose number
  is a multiple of 30, or at \<open>t0\<close> when fewer than 30 calls were made.
\<close>

definition window_start :: "time \<Rightarrow> time list \<Rightarrow> time" where
  "window_start t0 nows =
     (if length nows < 30 then t0 else nows ! (30 * (length nows div 30) - 1))"

text \<open>No window closes at the very clock reading at which it started.\<close>

definition no_empty_window :: "time \<Rightarrow> time list \<Rightarrow> bool" where
  "no_empty_window t0 nows =
     (\<forall>k < length nows. Suc k mod 30 = 0 \<longrightarrow> nows ! k \<noteq> window_start t0 (take k nows))"

text \<open>A detector as \<^verbatim>\<open>__init__\<close> leaves it, for concrete runs.\<close>

definition start_env :: init_env where
  "start_env = \<lparr>model_load = Done, cam_opens = True, serial_open = Done,
                 now_detection = 0, now_fps_start = 0\<rparr>"

definition started :: detector where
  "started = new_detector (Some (Serial True)) (Print ''Serial port COM5 opened successfully'')
               start_env"

definition started_degraded :: detector where
  "started_degraded = new_detector None (Print ''Serial error: '') start_env"

text \<open>
  The sampling test of the capture loop, and a camera that delivers frame \<open>f\<close> while
  the inference worker takes nothing off the queue.
\<close>

definition selected :: "detector \<Rightarrow> bool" where
  "selected d = (frame_count d mod FRAME_SKIP = 0)"

definition reads :: "frame \<Rightarrow> capture_env" where
  "reads f = \<lparr>cap_read = Some f, taken_before = 0, taken_between = 0\<rparr>"

definition read_fails :: capture_env where
  "read_fails = \<lparr>cap_read = None, taken_before = 0, taken_between = 0\<rparr>"

text \<open>Projections of a trace: the statuses sent, the texts written to the serial port,
  and the releases of the three resources.\<close>

fun send_calls :: "effect list \<Rightarrow> string list" where
  "send_calls [] = []"
| "send_calls (SendCall s # evs) = s # send_calls evs"
| "send_calls (ev # evs) = send_calls evs"

fun writes :: "effect list \<Rightarrow> string list" where
  "writes [] = []"
| "writes (SerialWrite s # evs) = s # writes evs"
| "writes (ev # evs) = writes evs"

fun releases :: "effect list \<Rightarrow> effect list" where
  "releases [] = []"
| "releases (CapRelease # evs) = CapRelease # releases evs"
| "releases (SerClose # evs) = SerClose # releases evs"
| "releases (DestroyAllWindows # evs) = DestroyAllWindows # releases evs"
| "releases (ev # evs) = releases evs"

text \<open>The effects that happened between two states.\<close>

definition added :: "detector \<Rightarrow> detector \<Rightarrow> effect list" where
  "added d d' = drop (length (trace d)) (trace d')"

text \<open>The serial library raises nothing but its own \<^verbatim>\<open>SerialException\<close>.\<close>

definition serial_error_only :: "outcome \<Rightarrow> bool" where
  "serial_error_only x = (x = Done \<or> x = Raises SerialException)"

text \<open>A result as \<^verbatim>\<open>process_frames\<close> builds it: the status is computed from the labels.\<close>

definition produced :: "result \<Rightarrow> bool" where
  "produced r = (status r = access_status (labels r))"

definition all_produced :: "iter_env list \<Rightarrow> bool" where
  "all_produced es = (\<forall>e \<in> set es. case polled e of None \<Rightarrow> True | Some r \<Rightarrow> produced r)"

text \<open>
  A pass of the main loop in which nothing arrives and no key is pressed, with every
  clock reading equal to \<open>t\<close>; the same pass with the quit key; and a pass that
  consumes a result.
\<close>

definition idle :: "time \<Rightarrow> iter_env" where
  "idle t = \<lparr>interrupt = False, polled = None, send1_write = Done, send1_flush = Done,
              now_transition = t, now_fps = t, key = - 1, now_check = t,
              send2_write = Done, send2_flush = Done, now_refresh = t\<rparr>"

definition quit :: "time \<Rightarrow> iter_env" where
  "quit t = (idle t)\<lparr>key := 113\<rparr>"

definition arrives :: "string list \<Rightarrow> time \<Rightarrow> iter_env" where
  "arrives ls t = (idle t)\<lparr>polled := Some \<lparr>annotated = 0, status = access_status ls, labels = ls\<rparr>\<rparr>"

text \<open>
  The specification's reporting rule, on the inputs of the passes alone: a consumed
  result whose status differs from the last reported status is one send; after that,
  unless the quit key ends the loop, more than 5 seconds since the last report are one
  more send, the refresh. \<open>st\<close> is the last reported status, \<open>lt\<close> the time of the last
  report.
\<close>

fun spec_sends :: "string \<Rightarrow> time \<Rightarrow> iter_env list \<Rightarrow> nat" where
  "spec_sends st lt [] = 0"
| "spec_sends st lt (e # es) =
     (let changed = (case polled e of Some r \<Rightarrow> status r \<noteq> st | None \<Rightarrow> False);
          st' = (case polled e of Some r \<Rightarrow> status r | None \<Rightarrow> st);
          lt' = (if changed then now_transition e else lt);
          stop = (key e AND 0xFF = 113);
          due = (\<not> stop \<and> now_check e - lt' > 5)
      in (if changed then 1 else 0) + (if due then 1 else 0)
         + (if stop then 0 else spec_sends st' (if due then now_refresh e else lt') es))"

definition raises :: "signal \<Rightarrow> bool" where
  "raises sg = (case sg of Raised ex \<Rightarrow> True | _ \<Rightarrow> False)"

definition final_trace :: "program_end \<Rightarrow> effect list" where
  "final_trace p = (case p of Aborted evs \<Rightarrow> evs | Unfinished d \<Rightarrow> trace d | Ended d \<Rightarrow> trace d)"

text \<open>Whether a pass consumes a result whose status differs from the reported one.\<close>

definition changed :: "detector \<Rightarrow> iter_env \<Rightarrow> bool" where
  "changed d e = (case polled e of Some r \<Rightarrow> status r \<noteq> current_status d | None \<Rightarrow> False)"

definition polled_status :: "detector \<Rightarrow> iter_env \<Rightarrow> string" where
  "polled_status d e = (case polled e of Some r \<Rightarrow> status r | None \<Rightarrow> current_status d)"

text \<open>The statuses of the wire protocol, and the line sent for each status of a set.\<close>

definition decided :: "string set" where
  "decided = {ACCESS_GRANTED, ACCESS_DENIED}"

definition messages :: "string set \<Rightarrow> string set" where
  "messages S = (\<lambda>s. s @ newline) ` S"

text \<open>The four passes of a short session: a result without labels arrives twice,
  nothing happens until the 8th second, and then the quit key is pressed.\<close>

definition session :: "iter_env list" where
  "session = [arrives [] 1, arrives [] 2, idle 8, quit 9]"

text \<open>The passes at the start of a run in which the poll of the result queue finds
  nothing: the run up to the first consumed result.\<close>

definition nothing_polled :: "iter_env \<Rightarrow> bool" where
  "nothing_polled e = (polled e = None)"

definition before_first_result :: "iter_env list \<Rightarrow> iter_env list" where
  "before_first_result es = takeWhile nothing_polled es"

text \<open>A session in which the first result arrives only in the 7th second.\<close>

definition late_session :: "iter_env list" where
  "late_session = [idle 6, arrives [] 7, idle 13, quit 14]"

section \<open>Facts about strings\<close>

lemma startswith_iff: "startswith h n \<longleftrightarrow> (\<exists>ss. h = n @ ss)"
  unfolding startswith_def by (metis append_eq_conv_conj append_take_drop_id)

lemma str_in_iff: "str_in n h \<longleftrightarrow> (\<exists>ps ss. h = ps @ n @ ss)"
proof (induction h)
  case Nil
  then show ?case by auto
next
  case (Cons c cs)
  have "(\<exists>ps ss. c # cs = ps @ n @ ss) \<longleftrightarrow> (\<exists>ss. c # cs = n @ ss) \<or> (\<exists>ps ss. cs = ps @ n @ ss)"
  proof
    assume "\<exists>ps ss. c # cs = ps @ n @ ss"
    then obtain ps ss where h: "c # cs = ps @ n @ ss" by blast
    show "(\<exists>ss. c # cs = n @ ss) \<or> (\<exists>ps ss. cs = ps @ n @ ss)"
    proof (cases ps)
      case Nil
      with h show ?thesis by auto
    next
      case (Cons p ps')
      with h have "cs = ps' @ n @ ss" by simp
      then show ?thesis by blast
    qed
  next
    assume "(\<exists>ss. c # cs = n @ ss) \<or> (\<exists>ps ss. cs = ps @ n @ ss)"
    then show "\<exists>ps ss. c # cs = ps @ n @ ss"
    proof
      assume "\<exists>ss. c # cs = n @ ss"
      then obtain ss where "c # cs = [] @ n @ ss" by auto
      then show ?thesis by blast
    next
      assume "\<exists>ps ss. cs = ps @ n @ ss"
      then obtain ps ss where "cs = ps @ n @ ss" by blast
      then have "c # cs = (c # ps) @ n @ ss" by simp
      then show ?thesis by blast
    qed
  qed
  then show ?case using Cons by (simp add: startswith_iff)
qed

lemma of_char_lower_char:
  "(of_char (lower_char c) :: nat) =
     (if 65 \<le> (of_char c :: nat) \<and> (of_char c :: nat) \<le> 90 then of_char c + 32 else of_char c)"
proof (cases "65 \<le> (of_char c :: nat) \<and> (of_char c :: nat) \<le> 90")
  case True
  then have "(of_char c + 32 :: nat) < 256" by linarith
  then have "(of_char c + 32 :: nat) mod 256 = of_char c + 32" by (rule mod_less)
  with True show ?thesis unfolding lower_char_def by (simp only: of_char_of if_True simp_thms)
next
  case False
  then show ?thesis unfolding lower_char_def by (simp only: if_False)
qed

lemma letter_arith:
  fixes a b :: nat
  assumes "97 \<le> b" "b \<le> 122"
  shows "(a = b \<or> (65 \<le> a \<and> a \<le> 90 \<and> b = a + 32) \<or> (65 \<le> b \<and> b \<le> 90 \<and> a = b + 32))
         = ((if 65 \<le> a \<and> a \<le> 90 then a + 32 else a) = b)"
  using assms by auto

lemma same_letter_lower:
  assumes "(97::nat) \<le> of_char t" "of_char t \<le> (122::nat)"
  shows "same_letter c t \<longleftrightarrow> lower_char c = t"
proof -
  have eq: "lower_char c = t \<longleftrightarrow> (of_char (lower_char c) :: nat) = of_char t"
    by (simp only: of_char_eq_iff)
  have ct: "c = t \<longleftrightarrow> (of_char c :: nat) = of_char t"
    by (simp only: of_char_eq_iff)
  show ?thesis unfolding eq of_char_lower_char same_letter_def upper_of_def ct
    by (rule letter_arith [OF assms])
qed

lemma list_all2_same_letter_lower:
  assumes "lowercase tok"
  shows "list_all2 same_letter piece tok \<longleftrightarrow> lower piece = tok"
  using assms
proof (induction tok arbitrary: piece)
  case Nil
  then show ?case by (simp add: lower_def)
next
  case (Cons t ts)
  show ?case
  proof (cases piece)
    case Nil
    then show ?thesis by (simp add: lower_def)
  next
    case pc: (Cons p ps)
    have "same_letter p t \<longleftrightarrow> lower_char p = t"
      using Cons.prems by (intro same_letter_lower) (simp_all add: lowercase_def)
    moreover have "list_all2 same_letter ps ts \<longleftrightarrow> lower ps = ts"
      using Cons.prems by (intro Cons.IH) (simp add: lowercase_def)
    ultimately show ?thesis using pc by (simp add: lower_def)
  qed
qed

lemma str_in_lower_iff:
  assumes "lowercase tok"
  shows "str_in tok (lower label) \<longleftrightarrow> occurs_caseless tok label"
proof
  assume "str_in tok (lower label)"
  then obtain ps ss where h: "map lower_char label = ps @ tok @ ss"
    unfolding str_in_iff lower_def by blast
  from h have "\<exists>us vs. label = us @ vs \<and> ps = map lower_char us \<and> tok @ ss = map lower_char vs"
    by (simp only: map_eq_append_conv)
  then obtain before rest where b: "label = before @ rest" "map lower_char rest = tok @ ss"
    by metis
  from b(2) have "\<exists>us vs. rest = us @ vs \<and> tok = map lower_char us \<and> ss = map lower_char vs"
    by (simp only: map_eq_append_conv)
  then obtain piece after where r: "rest = piece @ after" "map lower_char piece = tok"
    by metis
  have "list_all2 same_letter piece tok"
    using r(2) list_all2_same_letter_lower [OF assms, of piece] by (simp add: lower_def)
  with b(1) r(1) show "occurs_caseless tok label"
    unfolding occurs_caseless_def by blast
next
  assume "occurs_caseless tok label"
  then obtain before piece after where
    h: "label = before @ piece @ after" "list_all2 same_letter piece tok"
    unfolding occurs_caseless_def by blast
  from h(2) have "lower piece = tok"
    using list_all2_same_letter_lower [OF assms, of piece] by simp
  with h(1) have "lower label = lower before @ tok @ lower after"
    by (simp add: lower_def)
  then show "str_in tok (lower label)"
    unfolding str_in_iff by blast
qed

lemma lowercase_helmet: "lowercase ''helmet''"
  by (simp add: lowercase_def)

lemma lowercase_vest: "lowercase ''vest''"
  by (simp add: lowercase_def)

lemma has_helmet_iff: "has_helmet ls \<longleftrightarrow> (\<exists>l \<in> set ls. occurs_caseless ''helmet'' l)"
  by (simp only: has_helmet_def list_ex_iff str_in_lower_iff [OF lowercase_helmet])

lemma has_vest_iff: "has_vest ls \<longleftrightarrow> (\<exists>l \<in> set ls. occurs_caseless ''vest'' l)"
  by (simp only: has_vest_def list_ex_iff str_in_lower_iff [OF lowercase_vest])

section \<open>The access decision\<close>

text \<open>
  C1. For every list of detection labels the status computed by \<^verbatim>\<open>process_frames\<close>
  is \<^verbatim>\<open>ACCESS_GRANTED\<close> exactly when some label contains \<^verbatim>\<open>helmet\<close> and some label
  contains \<^verbatim>\<open>vest\<close>, each as a case-insensitive substring; in every other case it is
  \<^verbatim>\<open>ACCESS_DENIED\<close>, and so it is for the empty list.
\<close>

theorem access_status_granted_iff:
  "(access_status ls = ''ACCESS_GRANTED'' \<longleftrightarrow>
      (\<exists>l \<in> set ls. occurs_caseless ''helmet'' l) \<and> (\<exists>l \<in> set ls. occurs_caseless ''vest'' l))
   \<and> (access_status ls \<noteq> ''ACCESS_GRANTED'' \<longrightarrow> access_status ls = ''ACCESS_DENIED'')
   \<and> access_status [] = ''ACCESS_DENIED''"
proof -
  have "access_status [] = ''ACCESS_DENIED''"
    by (simp add: access_status_def has_helmet_def ACCESS_DENIED_def)
  then show ?thesis
    by (simp add: access_status_def has_helmet_iff has_vest_iff ACCESS_GRANTED_def ACCESS_DENIED_def)
qed

theorem access_status_granted_iff_witness:
  "access_status [''Hard Helmet'', ''Safety_Vest''] = ''ACCESS_GRANTED''
   \<and> (\<exists>l \<in> set [''Hard Helmet'', ''Safety_Vest'']. occurs_caseless ''helmet'' l)
   \<and> (\<exists>l \<in> set [''Hard Helmet'', ''Safety_Vest'']. occurs_caseless ''vest'' l)
   \<and> access_status [''Helmet''] \<noteq> ''ACCESS_GRANTED''
   \<and> access_status [''Helmet''] = ''ACCESS_DENIED''"
proof -
  have g: "access_status [''Hard Helmet'', ''Safety_Vest''] = ''ACCESS_GRANTED''"
    by code_simp
  have n: "access_status [''Helmet''] \<noteq> ''ACCESS_GRANTED''"
    by code_simp
  show ?thesis
    using g n access_status_granted_iff [of "[''Hard Helmet'', ''Safety_Vest'']"]
      access_status_granted_iff [of "[''Helmet'']"]
    by blast
qed


section \<open>The FPS windows\<close>

lemma fps_calls_append:
  "fps_calls d (xs @ ys) =
     (case fps_calls d xs of (Some ex, d') \<Rightarrow> (Some ex, d') | (None, d') \<Rightarrow> fps_calls d' ys)"
  by (induction xs arbitrary: d) (auto split: prod.splits option.splits)

lemma window_start_snoc:
  "window_start t0 (nows @ [now]) =
     (if Suc (length nows) mod 30 = 0 then now else window_start t0 nows)"
proof -
  define n where "n = length nows"
  have len: "length (nows @ [now]) = Suc n" by (simp add: n_def)
  show ?thesis
  proof (cases "Suc n mod 30 = 0")
    case True
    then have "30 dvd Suc n" by (simp only: dvd_eq_mod_eq_0)
    then have m: "30 * (Suc n div 30) = Suc n" by (rule dvd_mult_div_cancel)
    from \<open>30 dvd Suc n\<close> have "30 \<le> Suc n" by (rule dvd_imp_le) simp
    then have nl: "\<not> Suc n < 30" by simp
    have "(nows @ [now]) ! n = now" by (simp add: n_def)
    then have "window_start t0 (nows @ [now]) = now"
      unfolding window_start_def len using nl m by simp
    with True show ?thesis by (simp add: n_def)
  next
    case False
    then have d: "Suc n div 30 = n div 30" by (simp add: div_Suc)
    show ?thesis
    proof (cases "n < 30")
      case True
      have "Suc n \<noteq> 30" using False by auto
      with True have "Suc n < 30" by simp
      with True False show ?thesis unfolding window_start_def len by (simp add: n_def)
    next
      case ge: False
      then have "1 \<le> n div 30" by (simp add: div_greater_zero_iff)
      then have "30 \<le> 30 * (n div 30)" by simp
      moreover have "30 * (n div 30) \<le> n" by simp
      ultimately have lt: "30 * (n div 30) - 1 < n" by linarith
      then have "(nows @ [now]) ! (30 * (n div 30) - 1) = nows ! (30 * (n div 30) - 1)"
        by (simp add: nth_append n_def)
      moreover from ge have "\<not> Suc n < 30" by simp
      ultimately have "window_start t0 (nows @ [now]) = nows ! (30 * (n div 30) - 1)"
        unfolding window_start_def len d by simp
      moreover have "window_start t0 nows = nows ! (30 * (n div 30) - 1)"
        unfolding window_start_def using ge by (simp add: n_def)
      ultimately show ?thesis using False by (simp add: n_def)
    qed
  qed
qed
lemma suc_mod_zero:
  fixes n :: nat
  assumes "Suc n mod 30 = 0"
  shows "n mod 30 = 29"
proof -
  have "Suc n mod 30 = (if Suc (n mod 30) = 30 then 0 else Suc (n mod 30))"
    by (simp add: mod_Suc)
  with assms have "Suc (n mod 30) = 30" by (simp split: if_splits)
  then show ?thesis by simp
qed

lemma suc_mod_nonzero:
  fixes n :: nat
  assumes "Suc n mod 30 \<noteq> 0"
  shows "Suc n mod 30 = Suc (n mod 30)" and "Suc (n mod 30) < 30"
proof -
  have e: "Suc n mod 30 = (if Suc (n mod 30) = 30 then 0 else Suc (n mod 30))"
    by (simp add: mod_Suc)
  with assms show "Suc n mod 30 = Suc (n mod 30)" by (simp split: if_splits)
  have "n mod 30 < 30" by simp
  moreover from e assms have "Suc (n mod 30) \<noteq> 30" by (simp split: if_splits)
  ultimately show "Suc (n mod 30) < 30" by linarith
qed
lemma no_empty_window_snoc:
  "no_empty_window t0 (nows @ [now]) \<longleftrightarrow>
     no_empty_window t0 nows \<and> (Suc (length nows) mod 30 = 0 \<longrightarrow> now \<noteq> window_start t0 nows)"
  unfolding no_empty_window_def
  by (auto simp: less_Suc_eq nth_append)

lemma calculate_fps_not_due:
  assumes "fps_frame_count d + 1 < 30"
  shows "calculate_fps d now = (None, d\<lparr>fps_frame_count := fps_frame_count d + 1\<rparr>)"
  using assms by (simp add: calculate_fps_def Let_def)

lemma calculate_fps_due:
  assumes "fps_frame_count d + 1 = 30" "now \<noteq> fps_start_time d"
  shows "calculate_fps d now =
           (None, d\<lparr>fps_frame_count := 0, current_fps := 30 / (now - fps_start_time d),
                     fps_start_time := now\<rparr>)"
  using assms by (simp add: calculate_fps_def Let_def)

lemma calculate_fps_raises:
  assumes "30 \<le> fps_frame_count d + 1" "now = fps_start_time d"
  shows "fst (calculate_fps d now) = Some ZeroDivisionError"
  using assms by (simp add: calculate_fps_def Let_def)

lemma fps_calls_snoc:
  assumes "fps_calls d nows = (None, d1)"
  shows "fps_calls d (nows @ [now]) = calculate_fps d1 now"
  by (simp add: fps_calls_append assms split: prod.splits option.splits)

lemma fps_calls_invariant:
  assumes "fps_frame_count d = 0" "no_empty_window (fps_start_time d) nows"
  shows "fst (fps_calls d nows) = None
         \<and> fps_frame_count (snd (fps_calls d nows)) = int (length nows mod 30)
         \<and> fps_start_time (snd (fps_calls d nows)) = window_start (fps_start_time d) nows"
  using assms(2)
proof (induction nows rule: rev_induct)
  case Nil
  then show ?case using assms(1) by (simp add: window_start_def)
next
  case (snoc now nows)
  define t0 where "t0 = fps_start_time d"
  define n where "n = length nows"
  from snoc.prems have nw: "no_empty_window (fps_start_time d) nows"
    by (simp add: no_empty_window_snoc)
  have ne: "now \<noteq> window_start t0 nows" if "Suc n mod 30 = 0"
    using snoc.prems that by (simp add: no_empty_window_snoc t0_def n_def)
  obtain x d1 where d1: "fps_calls d nows = (x, d1)" by (cases "fps_calls d nows")
  with snoc.IH [OF nw] have x: "x = None" and c: "fps_frame_count d1 = int (n mod 30)"
    and s: "fps_start_time d1 = window_start t0 nows" by (simp_all add: t0_def n_def)
  have step: "fps_calls d (nows @ [now]) = calculate_fps d1 now"
    using d1 x by (intro fps_calls_snoc) simp
  have ws: "window_start t0 (nows @ [now]) = (if Suc n mod 30 = 0 then now else window_start t0 nows)"
    unfolding n_def by (rule window_start_snoc)
  have ln: "length (nows @ [now]) = Suc n" by (simp add: n_def)
  have goal: "fst (calculate_fps d1 now) = None
         \<and> fps_frame_count (snd (calculate_fps d1 now)) = int (Suc n mod 30)
         \<and> fps_start_time (snd (calculate_fps d1 now)) = window_start t0 (nows @ [now])"
  proof (cases "Suc n mod 30 = 0")
    case True
    then have "n mod 30 = 29" by (rule suc_mod_zero)
    with c have "fps_frame_count d1 + 1 = 30" by simp
    moreover from ne [OF True] s have "now \<noteq> fps_start_time d1" by simp
    ultimately have "calculate_fps d1 now =
        (None, d1\<lparr>fps_frame_count := 0, current_fps := 30 / (now - fps_start_time d1),
                   fps_start_time := now\<rparr>)"
      by (rule calculate_fps_due)
    with True show ?thesis unfolding ws by simp
  next
    case False
    then have m: "Suc n mod 30 = Suc (n mod 30)" and l: "Suc (n mod 30) < 30"
      by (rule suc_mod_nonzero)+
    from l c have "fps_frame_count d1 + 1 < 30" by simp
    then have "calculate_fps d1 now = (None, d1\<lparr>fps_frame_count := fps_frame_count d1 + 1\<rparr>)"
      by (rule calculate_fps_not_due)
    moreover have "fps_frame_count d1 + 1 = int (Suc n mod 30)" unfolding m c by simp
    ultimately show ?thesis unfolding ws using False s by simp
  qed
  show ?case unfolding step ln using goal by (simp only: t0_def)
qed
lemma no_empty_window_take:
  assumes "no_empty_window t0 nows"
  shows "no_empty_window t0 (take k nows)"
  using assms
proof (induction nows rule: rev_induct)
  case Nil
  then show ?case by simp
next
  case (snoc x xs)
  show ?case
  proof (cases "k \<le> length xs")
    case True
    then have "take k (xs @ [x]) = take k xs" by simp
    moreover from snoc.prems have "no_empty_window t0 xs"
      by (simp only: no_empty_window_snoc)
    ultimately show ?thesis using snoc.IH by simp
  next
    case False
    then have "take k (xs @ [x]) = xs @ [x]" by simp
    with snoc.prems show ?thesis by simp
  qed
qed

lemma no_empty_window_nth:
  assumes "no_empty_window t0 nows" "k < length nows" "Suc k mod 30 = 0"
  shows "nows ! k \<noteq> window_start t0 (take k nows)"
  using assms(1) [unfolded no_empty_window_def, rule_format, OF assms(2) assms(3)] .
text \<open>
  C6. Start with the counter at zero, as \<^verbatim>\<open>__init__\<close> leaves it, and let no window
  close at the clock reading at which it started. Then every call of the FPS computation
  returns, and the call for consumed result number \<open>k + 1\<close> resets the counter to zero
  and the window start to the current time exactly when \<open>k + 1\<close> is a multiple of 30;
  the FPS it then reports is 30 divided by the time elapsed since the previous window
  closed. Every other call leaves the window start and the reported FPS as they were.
\<close>

theorem fps_window_every_30:
  assumes "fps_frame_count d = 0"
    and "no_empty_window (fps_start_time d) nows"
    and "k < length nows"
  shows "fst (fps_calls d (take (Suc k) nows)) = None
     \<and> (if Suc k mod 30 = 0
        then fps_frame_count (snd (fps_calls d (take (Suc k) nows))) = 0
           \<and> fps_start_time (snd (fps_calls d (take (Suc k) nows))) = nows ! k
           \<and> current_fps (snd (fps_calls d (take (Suc k) nows)))
               = 30 / (nows ! k - window_start (fps_start_time d) (take k nows))
        else fps_frame_count (snd (fps_calls d (take (Suc k) nows))) = int (Suc k mod 30)
           \<and> fps_frame_count (snd (fps_calls d (take (Suc k) nows))) \<noteq> 0
           \<and> fps_start_time (snd (fps_calls d (take (Suc k) nows)))
               = fps_start_time (snd (fps_calls d (take k nows)))
           \<and> current_fps (snd (fps_calls d (take (Suc k) nows)))
               = current_fps (snd (fps_calls d (take k nows))))"
proof -
  define t0 where "t0 = fps_start_time d"
  define pre where "pre = take k nows"
  define now where "now = nows ! k"
  have tk: "take (Suc k) nows = pre @ [now]"
    using assms(3) by (simp add: take_Suc_conv_app_nth pre_def now_def)
  have lk: "length pre = k" using assms(3) by (simp add: pre_def)
  have nw: "no_empty_window (fps_start_time d) pre"
    unfolding pre_def using assms(2) by (rule no_empty_window_take)
  have ne: "now \<noteq> window_start t0 pre" if "Suc k mod 30 = 0"
    unfolding now_def t0_def pre_def using assms(2,3) that by (rule no_empty_window_nth)
  note inv = fps_calls_invariant [OF assms(1) nw]
  obtain x d1 where d1: "fps_calls d pre = (x, d1)" by (cases "fps_calls d pre")
  with inv have x: "x = None" and c: "fps_frame_count d1 = int (k mod 30)"
    and s: "fps_start_time d1 = window_start t0 pre"
    by (simp_all add: lk t0_def)
  have step: "fps_calls d (pre @ [now]) = calculate_fps d1 now"
    using d1 x by (intro fps_calls_snoc) simp
  have sd1: "snd (fps_calls d pre) = d1" using d1 by simp
  have goal: "fst (calculate_fps d1 now) = None
     \<and> (if Suc k mod 30 = 0
        then fps_frame_count (snd (calculate_fps d1 now)) = 0
           \<and> fps_start_time (snd (calculate_fps d1 now)) = now
           \<and> current_fps (snd (calculate_fps d1 now)) = 30 / (now - window_start t0 pre)
        else fps_frame_count (snd (calculate_fps d1 now)) = int (Suc k mod 30)
           \<and> fps_frame_count (snd (calculate_fps d1 now)) \<noteq> 0
           \<and> fps_start_time (snd (calculate_fps d1 now)) = fps_start_time d1
           \<and> current_fps (snd (calculate_fps d1 now)) = current_fps d1)"
  proof (cases "Suc k mod 30 = 0")
    case True
    then have "k mod 30 = 29" by (rule suc_mod_zero)
    with c have "fps_frame_count d1 + 1 = 30" by simp
    moreover from ne [OF True] s have "now \<noteq> fps_start_time d1" by simp
    ultimately have "calculate_fps d1 now =
        (None, d1\<lparr>fps_frame_count := 0, current_fps := 30 / (now - fps_start_time d1),
                   fps_start_time := now\<rparr>)"
      by (rule calculate_fps_due)
    with True s show ?thesis by simp
  next
    case False
    then have m: "Suc k mod 30 = Suc (k mod 30)" and l: "Suc (k mod 30) < 30"
      by (rule suc_mod_nonzero)+
    from l c have "fps_frame_count d1 + 1 < 30" by simp
    then have "calculate_fps d1 now = (None, d1\<lparr>fps_frame_count := fps_frame_count d1 + 1\<rparr>)"
      by (rule calculate_fps_not_due)
    moreover have "fps_frame_count d1 + 1 = int (Suc k mod 30)" unfolding m c by simp
    ultimately show ?thesis using False by simp
  qed
  have e1: "fps_calls d (take (Suc k) nows) = calculate_fps d1 (nows ! k)"
    using step by (simp only: tk now_def)
  have e2: "snd (fps_calls d (take k nows)) = d1"
    using sd1 by (simp only: pre_def)
  from goal have "fst (calculate_fps d1 (nows ! k)) = None"
    and "if Suc k mod 30 = 0
        then fps_frame_count (snd (calculate_fps d1 (nows ! k))) = 0
           \<and> fps_start_time (snd (calculate_fps d1 (nows ! k))) = nows ! k
           \<and> current_fps (snd (calculate_fps d1 (nows ! k)))
               = 30 / (nows ! k - window_start (fps_start_time d) (take k nows))
        else fps_frame_count (snd (calculate_fps d1 (nows ! k))) = int (Suc k mod 30)
           \<and> fps_frame_count (snd (calculate_fps d1 (nows ! k))) \<noteq> 0
           \<and> fps_start_time (snd (calculate_fps d1 (nows ! k))) = fps_start_time d1
           \<and> current_fps (snd (calculate_fps d1 (nows ! k))) = current_fps d1"
    unfolding t0_def pre_def now_def by blast+
  then show ?thesis unfolding e1 e2 by (rule conjI)
qed

theorem fps_window_every_30_witness:
  "fps_frame_count started = 0
   \<and> no_empty_window (fps_start_time started) (replicate 30 2)
   \<and> (29::nat) < length (replicate 30 (2::real))
   \<and> fst (fps_calls started (take (Suc 29) (replicate 30 2))) = None
   \<and> fps_frame_count (snd (fps_calls started (take (Suc 29) (replicate 30 2)))) = 0
   \<and> fps_start_time (snd (fps_calls started (take (Suc 29) (replicate 30 2)))) = 2
   \<and> current_fps (snd (fps_calls started (take (Suc 29) (replicate 30 2)))) = 15"
proof -
  have h1: "fps_frame_count started = 0"
    by (simp add: started_def new_detector_def)
  have t0: "fps_start_time started = 0"
    by (simp add: started_def new_detector_def start_env_def)
  have h2: "no_empty_window (fps_start_time started) (replicate 30 2)"
    unfolding no_empty_window_def t0 by (simp add: window_start_def)
  have h3: "(29::nat) < length (replicate 30 (2::real))" by simp
  have w: "window_start 0 (take 29 (replicate 30 (2::real))) = 0"
    by (simp add: window_start_def)
  have m: "Suc 29 mod 30 = 0" by simp
  show ?thesis
    using fps_window_every_30 [OF h1 h2 h3] h1 h2 h3 unfolding t0 w
    by (simp only: m if_True) simp
qed

section \<open>The capture stage\<close>

lemma put_not_full: "\<not> full q \<Longrightarrow> put (drop n q) x = Some (drop n q @ [x])"
  by (simp add: put_def full_def)

lemma capture_iter_success:
  assumes "running d" "cap_read e = Some f"
  shows "capture_iter d e =
     (if selected d \<and> \<not> full (drop (taken_before e) (frame_queue d))
      then Continue (emit (FramePut f)
             (d\<lparr>frame_queue := drop (taken_between e) (drop (taken_before e) (frame_queue d)) @ [f],
                frame_count := frame_count d + 1\<rparr>))
      else if selected d
      then Continue (d\<lparr>frame_queue := drop (taken_before e) (frame_queue d),
                       frame_count := frame_count d + 1\<rparr>)
      else Continue (d\<lparr>frame_count := frame_count d + 1\<rparr>))"
  using assms by (auto simp: capture_iter_def selected_def Let_def put_def full_def)

lemma capture_iter_not_Blocked: "capture_iter d e \<noteq> Blocked"
proof (cases "running d")
  case False
  then show ?thesis by (simp add: capture_iter_def)
next
  case True
  show ?thesis
  proof (cases "cap_read e")
    case None
    with True show ?thesis by (simp add: capture_iter_def)
  next
    case (Some f)
    show ?thesis by (simp add: capture_iter_success [OF True Some])
  qed
qed

lemma capture_frames_not_Blocked: "capture_frames d es \<noteq> Blocked"
proof (induction es arbitrary: d)
  case Nil
  show ?case by simp
next
  case (Cons e es)
  show ?case using capture_iter_not_Blocked [of d e] Cons.IH
    by (cases "capture_iter d e") simp_all
qed

lemma capture_iter_Continue:
  assumes "capture_iter d e = Continue d'"
  shows "running d \<and> running d' \<and> frame_count d' = frame_count d + 1 \<and> cap_read e \<noteq> None"
proof -
  from assms have r: "running d" by (auto simp: capture_iter_def split: if_splits)
  from assms r obtain f where f: "cap_read e = Some f"
    by (cases "cap_read e") (auto simp: capture_iter_def)
  from assms show ?thesis
    unfolding capture_iter_success [OF r f] using r f
    by (auto simp: emit_def split: if_splits)
qed

lemma capture_frames_Continue:
  assumes "capture_frames d es = Continue d'"
  shows "frame_count d' = frame_count d + int (length es) \<and> running d' = running d"
  using assms
proof (induction es arbitrary: d)
  case Nil
  then show ?case by simp
next
  case (Cons e es)
  from Cons.prems obtain d1 where d1: "capture_iter d e = Continue d1"
    and rest: "capture_frames d1 es = Continue d'"
    by (cases "capture_iter d e") simp_all
  from capture_iter_Continue [OF d1] Cons.IH [OF rest] show ?case by simp
qed

lemma process_iter_Continue:
  assumes "running d"
  shows "\<exists>d'. process_iter d pe = Continue d'"
  using assms
  by (cases "frame_polled pe") (auto simp: process_iter_def Let_def put_def full_def)

text \<open>
  C5. For every successfully read frame the capture pass never blocks and capture goes
  on with the next frame, whatever the consumer does in between. The frame is put on
  the queue only when the frame count satisfies the stride
  (\<open>frame_count mod FRAME_SKIP = 0\<close>); when the queue of capacity 2 is full at the
  test, nothing is pushed: the frame is discarded and the queue is what the consumer
  left of it.
\<close>

theorem capture_never_blocks_on_full_queue:
  assumes "running d" and "cap_read e = Some f"
  shows "\<exists>d'. capture_iter d e = Continue d'
       \<and> running d' \<and> frame_count d' = frame_count d + 1
       \<and> (trace d' = trace d @ [FramePut f] \<or> trace d' = trace d)
       \<and> (trace d' = trace d @ [FramePut f] \<longrightarrow> frame_count d mod FRAME_SKIP = 0)
       \<and> (frame_count d mod FRAME_SKIP = 0
            \<and> QUEUE_MAXSIZE \<le> length (drop (taken_before e) (frame_queue d)) \<longrightarrow>
            trace d' = trace d \<and> frame_queue d' = drop (taken_before e) (frame_queue d))
       \<and> (frame_count d mod FRAME_SKIP \<noteq> 0 \<longrightarrow>
            trace d' = trace d \<and> frame_queue d' = frame_queue d)
       \<and> (length (frame_queue d) \<le> QUEUE_MAXSIZE \<longrightarrow> length (frame_queue d') \<le> QUEUE_MAXSIZE)
       \<and> (\<forall>es. capture_frames d (e # es) \<noteq> Blocked)"
proof -
  have nb: "\<forall>es. capture_frames d (e # es) \<noteq> Blocked"
    using capture_frames_not_Blocked by blast
  show ?thesis
    unfolding capture_iter_success [OF assms]
    using assms(1) nb
    by (auto simp: emit_def selected_def full_def QUEUE_MAXSIZE_def)
qed

theorem capture_never_blocks_on_full_queue_witness:
  "running (started\<lparr>frame_queue := [0, 2], frame_count := 4\<rparr>)
   \<and> cap_read (reads 4) = Some 4
   \<and> (\<exists>d'. capture_iter (started\<lparr>frame_queue := [0, 2], frame_count := 4\<rparr>) (reads 4) = Continue d'
          \<and> frame_queue d' = [0, 2] \<and> frame_count d' = 5
          \<and> trace d' = trace (started\<lparr>frame_queue := [0, 2], frame_count := 4\<rparr>))"
proof -
  have r: "running (started\<lparr>frame_queue := [0, 2], frame_count := 4\<rparr>)"
    by (simp add: started_def new_detector_def)
  have c: "cap_read (reads 4) = Some 4" by (simp add: reads_def)
  have t: "taken_before (reads 4) = 0" by (simp add: reads_def)
  from capture_never_blocks_on_full_queue [OF r c] obtain d' where
    d': "capture_iter (started\<lparr>frame_queue := [0, 2], frame_count := 4\<rparr>) (reads 4) = Continue d'"
      "frame_count d' = frame_count (started\<lparr>frame_queue := [0, 2], frame_count := 4\<rparr>) + 1"
      "frame_count (started\<lparr>frame_queue := [0, 2], frame_count := 4\<rparr>) mod FRAME_SKIP = 0
         \<and> QUEUE_MAXSIZE \<le> length (drop (taken_before (reads 4))
           (frame_queue (started\<lparr>frame_queue := [0, 2], frame_count := 4\<rparr>))) \<longrightarrow>
         trace d' = trace (started\<lparr>frame_queue := [0, 2], frame_count := 4\<rparr>)
         \<and> frame_queue d' = drop (taken_before (reads 4))
              (frame_queue (started\<lparr>frame_queue := [0, 2], frame_count := 4\<rparr>))"
    by blast
  from d'(2,3) have "frame_queue d' = [0, 2] \<and> frame_count d' = 5
      \<and> trace d' = trace (started\<lparr>frame_queue := [0, 2], frame_count := 4\<rparr>)"
    by (simp add: t QUEUE_MAXSIZE_def FRAME_SKIP_def)
  with r c d'(1) show ?thesis by blast
qed

text \<open>
  C9, as stated, fails: the frames put on the queue are not all the frames whose
  sequence number is a multiple of the stride. Five frames \<open>0, \<dots>, 4\<close> are read while
  the inference worker takes nothing: frames 0 and 2 fill the queue, and frame 4, whose
  sequence number 4 is a multiple of \<open>FRAME_SKIP\<close>, is not forwarded.
\<close>

theorem capture_forwards_counterexample:
  "(4::int) mod FRAME_SKIP = 0
   \<and> capture_frames started [reads 0, reads 1, reads 2, reads 3, reads 4]
       = Continue (started\<lparr>frame_queue := [0, 2], frame_count := 5,
                             trace := trace started @ [FramePut 0, FramePut 2]\<rparr>)
   \<and> FramePut 4 \<notin> set (trace started @ [FramePut 0, FramePut 2])"
  by (simp add: FRAME_SKIP_def started_def new_detector_def reads_def capture_iter_def
      emit_def put_def full_def QUEUE_MAXSIZE_def)

text \<open>
  C9, amended. Start the capture loop with the frame count at zero, as \<^verbatim>\<open>__init__\<close>
  leaves it. The frames that pass the sampling test are exactly those whose zero-based
  sequence number is a multiple of \<open>FRAME_SKIP\<close> (the test precedes the increment), and
  such a frame is put on the queue exactly when the queue is not full at that moment.
  The very first frame is always selected and, the queue being empty, put.
\<close>

theorem capture_selects_by_stride:
  assumes "frame_count d0 = 0" and "running d0"
    and "capture_frames d0 es = Continue d" and "cap_read e = Some f"
  shows "(selected d \<longleftrightarrow> int (length es) mod FRAME_SKIP = 0)
       \<and> (\<exists>d'. capture_iter d e = Continue d'
             \<and> (trace d' = trace d @ [FramePut f] \<longleftrightarrow>
                  selected d \<and> \<not> full (drop (taken_before e) (frame_queue d)))
             \<and> (trace d' \<noteq> trace d @ [FramePut f] \<longrightarrow> trace d' = trace d))
       \<and> (es = [] \<longrightarrow> frame_queue d0 = [] \<longrightarrow>
            selected d \<and> capture_iter d e = Continue (emit (FramePut f)
              (d\<lparr>frame_queue := [f], frame_count := 1\<rparr>)))"
proof -
  from capture_frames_Continue [OF assms(3)] assms(1,2)
  have fc: "frame_count d = int (length es)" and r: "running d" by simp_all
  have s: "selected d \<longleftrightarrow> int (length es) mod FRAME_SKIP = 0"
    by (simp add: selected_def fc)
  have it: "\<exists>d'. capture_iter d e = Continue d'
             \<and> (trace d' = trace d @ [FramePut f] \<longleftrightarrow>
                  selected d \<and> \<not> full (drop (taken_before e) (frame_queue d)))
             \<and> (trace d' \<noteq> trace d @ [FramePut f] \<longrightarrow> trace d' = trace d)"
    unfolding capture_iter_success [OF r assms(4)] by (auto simp: emit_def)
  have first: "selected d \<and> capture_iter d e = Continue (emit (FramePut f)
              (d\<lparr>frame_queue := [f], frame_count := 1\<rparr>))"
    if "es = []" "frame_queue d0 = []"
  proof -
    from that assms(3) have dd: "d = d0" by simp
    with that assms(1) have "selected d" "\<not> full (drop (taken_before e) (frame_queue d))"
      "frame_count d = 0" "frame_queue d = []"
      by (simp_all add: selected_def full_def QUEUE_MAXSIZE_def)
    then show ?thesis unfolding capture_iter_success [OF r assms(4)] by simp
  qed
  from s it first show ?thesis by blast
qed

theorem capture_selects_by_stride_witness:
  "frame_count started = 0 \<and> running started
   \<and> capture_frames started [reads 0, reads 1] = Continue (started\<lparr>frame_queue := [0],
        frame_count := 2, trace := trace started @ [FramePut 0]\<rparr>)
   \<and> cap_read (reads 2) = Some 2
   \<and> selected (started\<lparr>frame_queue := [0], frame_count := 2,
        trace := trace started @ [FramePut 0]\<rparr>)
   \<and> int (length [reads 0, reads 1]) mod FRAME_SKIP = 0"
proof -
  have h1: "frame_count started = 0" and h2: "running started"
    by (simp_all add: started_def new_detector_def)
  have h3: "capture_frames started [reads 0, reads 1] = Continue (started\<lparr>frame_queue := [0],
        frame_count := 2, trace := trace started @ [FramePut 0]\<rparr>)"
    by (simp add: FRAME_SKIP_def started_def new_detector_def reads_def capture_iter_def
      emit_def put_def full_def QUEUE_MAXSIZE_def)
  have h4: "cap_read (reads 2) = Some 2" by (simp add: reads_def)
  have m: "int (length [reads 0, reads 1]) mod FRAME_SKIP = 0" by (simp add: FRAME_SKIP_def)
  from capture_selects_by_stride [OF h1 h2 h3 h4] m h1 h2 h3 h4 show ?thesis by blast
qed

text \<open>
  C4, as stated, fails: after a failed read the capture loop ends, but the running flag
  is still true, and the main loop is still looping.
\<close>

theorem read_failure_counterexample:
  "capture_iter started read_fails
     = Exited (emit (Print ''Error: Failed to capture frame'') started)
   \<and> running (emit (Print ''Error: Failed to capture frame'') started)
   \<and> fst (run_loop (emit (Print ''Error: Failed to capture frame'') started) []) = Looping"
  by (simp add: capture_iter_def read_fails_def started_def new_detector_def emit_def)

text \<open>
  C4, amended. For every mid-run frame read failure the capture stage prints an error
  and terminates without a retry: no later frame is read. The failure is not passed on:
  the running flag stays true, the inference worker goes on with its next pass and the
  condition of the main loop still holds.
\<close>

theorem read_failure_stops_capture_only:
  assumes "running d" and "cap_read e = None"
  shows "capture_frames d (e # es) = Exited (emit (Print ''Error: Failed to capture frame'') d)
       \<and> running (emit (Print ''Error: Failed to capture frame'') d)
       \<and> (\<exists>d'. process_iter (emit (Print ''Error: Failed to capture frame'') d) pe = Continue d')
       \<and> fst (run_loop (emit (Print ''Error: Failed to capture frame'') d) []) = Looping"
proof -
  have r: "running (emit (Print ''Error: Failed to capture frame'') d)"
    using assms(1) by (simp add: emit_def)
  have c: "capture_frames d (e # es) = Exited (emit (Print ''Error: Failed to capture frame'') d)"
    using assms by (simp add: capture_iter_def)
  from r c process_iter_Continue [OF r] show ?thesis by simp
qed

theorem read_failure_stops_capture_only_witness:
  "running started \<and> cap_read read_fails = None
   \<and> capture_frames started [read_fails, reads 1]
        = Exited (emit (Print ''Error: Failed to capture frame'') started)
   \<and> running (emit (Print ''Error: Failed to capture frame'') started)"
proof -
  have h1: "running started" by (simp add: started_def new_detector_def)
  have h2: "cap_read read_fails = None" by (simp add: read_fails_def)
  from read_failure_stops_capture_only [OF h1 h2, of "[reads 1]"] h1 h2 show ?thesis by blast
qed


section \<open>The serial channel\<close>

lemma send_calls_append: "send_calls (xs @ ys) = send_calls xs @ send_calls ys"
  by (induction xs rule: send_calls.induct) simp_all

lemma writes_append: "writes (xs @ ys) = writes xs @ writes ys"
  by (induction xs rule: writes.induct) simp_all

lemma releases_append: "releases (xs @ ys) = releases xs @ releases ys"
  by (induction xs rule: releases.induct) simp_all

text \<open>What a call of \<^verbatim>\<open>send_to_esp32\<close> can do: it touches nothing but the trace.\<close>

lemma send_shape:
  "snd (send_to_esp32 d st wr fl)
      = d\<lparr>trace := trace d @ added d (snd (send_to_esp32 d st wr fl))\<rparr>
   \<and> send_calls (added d (snd (send_to_esp32 d st wr fl))) = [st]
   \<and> releases (added d (snd (send_to_esp32 d st wr fl))) = []
   \<and> (writes (added d (snd (send_to_esp32 d st wr fl))) = []
      \<or> writes (added d (snd (send_to_esp32 d st wr fl))) = [st @ newline])
   \<and> (ser d = None \<longrightarrow> writes (added d (snd (send_to_esp32 d st wr fl))) = [])"
proof (cases "ser d")
  case None
  then show ?thesis by (simp add: send_to_esp32_def emit_def added_def Let_def)
next
  case (Some s)
  show ?thesis
  proof (cases "is_open s")
    case False
    with Some show ?thesis by (simp add: send_to_esp32_def emit_def added_def Let_def)
  next
    case True
    show ?thesis
    proof (cases wr)
      case (Raises ex)
      with Some True show ?thesis
        by (cases ex) (simp_all add: send_to_esp32_def emit_def added_def Let_def)
    next
      case Done
      show ?thesis
      proof (cases fl)
        case (Raises ex)
        with Some True Done show ?thesis
          by (cases ex) (simp_all add: send_to_esp32_def emit_def added_def Let_def)
      next
        case fd: Done
        with Some True Done show ?thesis
          by (simp add: send_to_esp32_def emit_def added_def Let_def)
      qed
    qed
  qed
qed

lemma send_no_raise:
  assumes "serial_error_only wr" "serial_error_only fl"
  shows "fst (send_to_esp32 d st wr fl) = None"
  using assms
  by (auto simp: serial_error_only_def send_to_esp32_def Let_def
      split: option.splits)

lemma send_degraded:
  assumes "ser d = None"
  shows "send_to_esp32 d st wr fl = (None, emit (SendCall st) d)"
  using assms by (simp add: send_to_esp32_def Let_def emit_def)

lemma send_same_port:
  assumes "ser d1 = ser d2"
  shows "fst (send_to_esp32 d1 st wr fl) = fst (send_to_esp32 d2 st wr fl)
       \<and> added d1 (snd (send_to_esp32 d1 st wr fl)) = added d2 (snd (send_to_esp32 d2 st wr fl))"
proof (cases "ser d2")
  case None
  with assms show ?thesis by (simp add: send_to_esp32_def emit_def added_def Let_def)
next
  case (Some s)
  show ?thesis
  proof (cases "is_open s")
    case False
    with Some assms show ?thesis by (simp add: send_to_esp32_def emit_def added_def Let_def)
  next
    case True
    show ?thesis
    proof (cases wr)
      case (Raises ex)
      with Some True assms show ?thesis
        by (cases ex) (simp_all add: send_to_esp32_def emit_def added_def Let_def)
    next
      case Done
      show ?thesis
      proof (cases fl)
        case (Raises ex)
        with Some True Done assms show ?thesis
          by (cases ex) (simp_all add: send_to_esp32_def emit_def added_def Let_def)
      next
        case fd: Done
        with Some True Done assms show ?thesis
          by (simp add: send_to_esp32_def emit_def added_def Let_def)
      qed
    qed
  qed
qed

lemma send_write_error:
  assumes "ser d = Some (Serial True)"
    and "wr = Raises SerialException \<or> wr = Done \<and> fl = Raises SerialException"
  shows "fst (send_to_esp32 d st wr fl) = None
       \<and> snd (send_to_esp32 d st wr fl)
           = d\<lparr>trace := trace (snd (send_to_esp32 d st wr fl))\<rparr>
       \<and> last (trace (snd (send_to_esp32 d st wr fl))) = Print ''Serial communication error: ''"
  using assms by (auto simp: send_to_esp32_def emit_def Let_def)

section \<open>The main loop\<close>

lemma emit_fields [simp]:
  "trace (emit ev d) = trace d @ [ev]" "ser (emit ev d) = ser d"
  "cap_opened (emit ev d) = cap_opened d" "running (emit ev d) = running d"
  "current_status (emit ev d) = current_status d"
  "last_detection_time (emit ev d) = last_detection_time d"
  by (simp_all add: emit_def)

lemma fps_keeps:
  "trace (snd (calculate_fps d t)) = trace d \<and> ser (snd (calculate_fps d t)) = ser d
   \<and> cap_opened (snd (calculate_fps d t)) = cap_opened d
   \<and> running (snd (calculate_fps d t)) = running d
   \<and> current_status (snd (calculate_fps d t)) = current_status d
   \<and> last_detection_time (snd (calculate_fps d t)) = last_detection_time d"
  by (simp add: calculate_fps_def Let_def)

lemma send_keeps:
  "ser (snd (send_to_esp32 d st wr fl)) = ser d
   \<and> cap_opened (snd (send_to_esp32 d st wr fl)) = cap_opened d
   \<and> running (snd (send_to_esp32 d st wr fl)) = running d
   \<and> current_status (snd (send_to_esp32 d st wr fl)) = current_status d
   \<and> last_detection_time (snd (send_to_esp32 d st wr fl)) = last_detection_time d
   \<and> trace (snd (send_to_esp32 d st wr fl)) = trace d @ added d (snd (send_to_esp32 d st wr fl))"
proof -
  from send_shape [of d st wr fl]
  have e: "snd (send_to_esp32 d st wr fl)
      = d\<lparr>trace := trace d @ added d (snd (send_to_esp32 d st wr fl))\<rparr>" by blast
  show ?thesis by (subst e, simp)+
qed

lemma consume_nothing: "polled e = None \<Longrightarrow> consume d e = (None, d)"
  by (simp add: consume_def)

lemma consume_unchanged:
  assumes "polled e = Some r" "status r = current_status d"
  shows "consume d e =
     (case calculate_fps d (now_fps e) of
        (Some ex, d2) \<Rightarrow> (Some ex, d2)
      | (None, d2) \<Rightarrow> (None, emit (ImShow (annotated r)) d2))"
  using assms by (simp add: consume_def)

lemma consume_changed:
  assumes "polled e = Some r" "status r \<noteq> current_status d"
  shows "consume d e =
     (case send_to_esp32 d (status r) (send1_write e) (send1_flush e) of
        (Some ex, d1) \<Rightarrow> (Some ex, d1)
      | (None, d1) \<Rightarrow>
          (case calculate_fps (d1\<lparr>current_status := status r,
                                   last_detection_time := now_transition e\<rparr>) (now_fps e) of
             (Some ex, d2) \<Rightarrow> (Some ex, d2)
           | (None, d2) \<Rightarrow> (None, emit (ImShow (annotated r)) d2)))"
  using assms by (simp add: consume_def split: prod.splits option.splits)

lemma added_append: "trace d' = trace d @ evs \<Longrightarrow> added d d' = evs"
  by (simp add: added_def)

lemma added_self [simp]: "added d d = []"
  by (simp add: added_def)

lemma added_compose:
  assumes "trace d1 = trace d @ added d d1" and "trace d2 = trace d1 @ added d1 d2"
  shows "trace d2 = trace d @ added d d2 \<and> added d d2 = added d d1 @ added d1 d2"
proof -
  from assms have t: "trace d2 = trace d @ (added d d1 @ added d1 d2)"
    by (metis append_assoc)
  then have "added d d2 = added d d1 @ added d1 d2" by (rule added_append)
  with t show ?thesis by simp
qed

text \<open>Showing a frame, or failing in the FPS computation, after the state \<open>d0\<close>.\<close>

lemma after_fps:
  assumes "p = (case calculate_fps d0 t of
        (Some ex, d2) \<Rightarrow> (Some ex, d2)
      | (None, d2) \<Rightarrow> (None, emit (ImShow fr) d2))"
  shows "ser (snd p) = ser d0 \<and> cap_opened (snd p) = cap_opened d0
       \<and> running (snd p) = running d0
       \<and> current_status (snd p) = current_status d0
       \<and> last_detection_time (snd p) = last_detection_time d0
       \<and> trace (snd p) = trace d0 @ added d0 (snd p)
       \<and> send_calls (added d0 (snd p)) = []
       \<and> writes (added d0 (snd p)) = []
       \<and> releases (added d0 (snd p)) = []"
proof -
  obtain x d2 where c: "calculate_fps d0 t = (x, d2)" by (cases "calculate_fps d0 t")
  with fps_keeps [of d0 t] have k: "trace d2 = trace d0" "ser d2 = ser d0"
    "cap_opened d2 = cap_opened d0" "running d2 = running d0"
    "current_status d2 = current_status d0" "last_detection_time d2 = last_detection_time d0"
    by simp_all
  show ?thesis unfolding assms c using k
    by (cases x) (simp_all add: added_def)
qed

lemma consume_summary:
  "ser (snd (consume d e)) = ser d \<and> cap_opened (snd (consume d e)) = cap_opened d
   \<and> running (snd (consume d e)) = running d
   \<and> trace (snd (consume d e)) = trace d @ added d (snd (consume d e))
   \<and> releases (added d (snd (consume d e))) = []
   \<and> send_calls (added d (snd (consume d e)))
       = (if changed d e then [polled_status d e] else [])
   \<and> (writes (added d (snd (consume d e))) = []
       \<or> changed d e \<and> ser d \<noteq> None
          \<and> writes (added d (snd (consume d e))) = [polled_status d e @ newline])
   \<and> (fst (consume d e) = None \<longrightarrow>
        current_status (snd (consume d e)) = polled_status d e
        \<and> last_detection_time (snd (consume d e))
            = (if changed d e then now_transition e else last_detection_time d))
   \<and> (current_status (snd (consume d e)) = current_status d
       \<or> current_status (snd (consume d e)) = polled_status d e)"
proof (cases "polled e")
  case None
  then show ?thesis by (simp add: consume_nothing changed_def polled_status_def)
next
  case (Some r)
  show ?thesis
  proof (cases "status r = current_status d")
    case True
    note a = after_fps [OF consume_unchanged [OF Some True]]
    from Some True have "\<not> changed d e" "polled_status d e = current_status d"
      by (simp_all add: changed_def polled_status_def)
    with a show ?thesis by simp
  next
    case False
    from Some False have ch: "changed d e" and ps: "polled_status d e = status r"
      by (simp_all add: changed_def polled_status_def)
    obtain x d1 where s: "send_to_esp32 d (status r) (send1_write e) (send1_flush e) = (x, d1)"
      by (cases "send_to_esp32 d (status r) (send1_write e) (send1_flush e)")
    from send_keeps [of d "status r" "send1_write e" "send1_flush e"]
      send_shape [of d "status r" "send1_write e" "send1_flush e"] s
    have k: "ser d1 = ser d" "cap_opened d1 = cap_opened d" "running d1 = running d"
      "current_status d1 = current_status d" "last_detection_time d1 = last_detection_time d"
      and t1: "trace d1 = trace d @ added d d1"
      and a1: "send_calls (added d d1) = [status r]"
      "releases (added d d1) = []"
      "writes (added d d1) = [] \<or> writes (added d d1) = [status r @ newline]"
      "ser d = None \<longrightarrow> writes (added d d1) = []"
      by simp_all
    show ?thesis
    proof (cases x)
      case (Some ex)
      with s have "consume d e = (Some ex, d1)"
        by (simp add: consume_changed [OF \<open>polled e = Some r\<close> False])
      with k t1 a1 ch ps show ?thesis by auto
    next
      case None
      define d0 where "d0 = d1\<lparr>current_status := status r, last_detection_time := now_transition e\<rparr>"
      from None s have cc: "consume d e = (case calculate_fps d0 (now_fps e) of
             (Some ex, d2) \<Rightarrow> (Some ex, d2)
           | (None, d2) \<Rightarrow> (None, emit (ImShow (annotated r)) d2))"
        by (simp add: consume_changed [OF \<open>polled e = Some r\<close> False] d0_def)
      note a = after_fps [OF cc]
      have f0: "ser d0 = ser d1" "cap_opened d0 = cap_opened d1" "running d0 = running d1"
        "current_status d0 = status r" "last_detection_time d0 = now_transition e"
        and t0: "trace d0 = trace d1" and a0: "added d d0 = added d d1"
        by (simp_all add: d0_def added_def)
      from t1 t0 have td0: "trace d0 = trace d @ added d d0" by (simp add: a0)
      from a have "trace (snd (consume d e)) = trace d0 @ added d0 (snd (consume d e))"
        by blast
      note cmp = added_compose [OF td0 this]
      from a k f0 a1 ch ps show ?thesis
        by (auto simp: cmp a0 send_calls_append writes_append releases_append)
    qed
  qed
qed

lemma main_iter_interrupt: "interrupt e \<Longrightarrow> main_iter d e = (Raised KeyboardInterrupt, d)"
  by (simp add: main_iter_def)

lemma main_iter_summary:
  "ser (snd (main_iter d e)) = ser d \<and> cap_opened (snd (main_iter d e)) = cap_opened d
   \<and> running (snd (main_iter d e)) = running d
   \<and> trace (snd (main_iter d e)) = trace d @ added d (snd (main_iter d e))
   \<and> releases (added d (snd (main_iter d e))) = []
   \<and> set (writes (added d (snd (main_iter d e)))) \<subseteq> {polled_status d e @ newline}
   \<and> (ser d = None \<longrightarrow> writes (added d (snd (main_iter d e))) = [])
   \<and> (current_status (snd (main_iter d e)) = current_status d
       \<or> current_status (snd (main_iter d e)) = polled_status d e)
   \<and> (\<not> changed d e \<and> \<not> now_check e - last_detection_time d > 5 \<longrightarrow>
        send_calls (added d (snd (main_iter d e))) = [])
   \<and> (\<not> raises (fst (main_iter d e)) \<longrightarrow>
        fst (main_iter d e) = (if key e AND 0xFF = 113 then Stopped else Looping)
        \<and> current_status (snd (main_iter d e)) = polled_status d e
        \<and> send_calls (added d (snd (main_iter d e)))
            = (if changed d e then [polled_status d e] else [])
              @ (if key e AND 0xFF \<noteq> 113
                    \<and> now_check e - (if changed d e then now_transition e
                                       else last_detection_time d) > 5
                 then [polled_status d e] else [])
        \<and> last_detection_time (snd (main_iter d e))
            = (if key e AND 0xFF \<noteq> 113
                    \<and> now_check e - (if changed d e then now_transition e
                                       else last_detection_time d) > 5
               then now_refresh e
               else if changed d e then now_transition e else last_detection_time d))"
proof (cases "interrupt e")
  case True
  then show ?thesis by (auto simp: main_iter_interrupt raises_def)
next
  case ni: False
  obtain x1 d1 where c: "consume d e = (x1, d1)" by (cases "consume d e")
  note cs = consume_summary [of d e, unfolded c, simplified]
  from cs have t1: "trace d1 = trace d @ added d d1" by blast
  show ?thesis
  proof (cases x1)
    case (Some ex)
    with ni c have m: "main_iter d e = (Raised ex, d1)" by (simp add: main_iter_def)
    from cs show ?thesis unfolding m by (auto simp: raises_def)
  next
    case None
    with cs have u: "current_status d1 = polled_status d e"
      "last_detection_time d1 = (if changed d e then now_transition e else last_detection_time d)"
      by simp_all
    show ?thesis
    proof (cases "key e AND 0xFF = 113")
      case True
      with ni c None have m: "main_iter d e = (Stopped, d1)" by (simp add: main_iter_def)
      from cs u True show ?thesis unfolding m by (auto simp: raises_def)
    next
      case nq: False
      show ?thesis
      proof (cases "now_check e - last_detection_time d1 > 5")
        case False
        with ni c None nq have m: "main_iter d e = (Looping, d1)" by (simp add: main_iter_def)
        from cs u nq False show ?thesis unfolding m by (auto simp: raises_def)
      next
        case True
        obtain x2 d2 where
          s: "send_to_esp32 d1 (current_status d1) (send2_write e) (send2_flush e) = (x2, d2)"
          by (cases "send_to_esp32 d1 (current_status d1) (send2_write e) (send2_flush e)")
        from send_keeps [of d1 "current_status d1" "send2_write e" "send2_flush e"]
          send_shape [of d1 "current_status d1" "send2_write e" "send2_flush e"] s
        have k: "ser d2 = ser d1" "cap_opened d2 = cap_opened d1" "running d2 = running d1"
          "current_status d2 = current_status d1"
          and t2: "trace d2 = trace d1 @ added d1 d2"
          and a2: "send_calls (added d1 d2) = [current_status d1]"
          "releases (added d1 d2) = []"
          "writes (added d1 d2) = [] \<or> writes (added d1 d2) = [current_status d1 @ newline]"
          "ser d1 = None \<longrightarrow> writes (added d1 d2) = []"
          by simp_all
        note cmp = added_compose [OF t1 t2]
        define d3 where "d3 = d2\<lparr>last_detection_time := now_refresh e\<rparr>"
        have f3: "ser d3 = ser d2" "cap_opened d3 = cap_opened d2" "running d3 = running d2"
          "current_status d3 = current_status d2" "last_detection_time d3 = now_refresh e"
          "trace d3 = trace d2" "added d d3 = added d d2"
          by (simp_all add: d3_def added_def)
        show ?thesis
        proof (cases x2)
          case (Some ex)
          with ni c None nq True s have m: "main_iter d e = (Raised ex, d2)"
            by (simp add: main_iter_def \<open>x1 = None\<close>)
          from cs u k a2 True show ?thesis unfolding m
            by (auto simp: raises_def cmp send_calls_append writes_append releases_append
                split: if_splits)
        next
          case x2n: None
          with ni c None nq True s
          have m: "main_iter d e = (Looping, d3)"
            by (simp add: main_iter_def d3_def)
          from cs u k a2 nq True show ?thesis unfolding m
            by (auto simp: raises_def f3 cmp send_calls_append writes_append releases_append
                split: if_splits)
        qed
      qed
    qed
  qed
qed

lemma run_loop_summary:
  "ser (snd (run_loop d es)) = ser d \<and> cap_opened (snd (run_loop d es)) = cap_opened d
   \<and> running (snd (run_loop d es)) = running d
   \<and> trace (snd (run_loop d es)) = trace d @ added d (snd (run_loop d es))
   \<and> releases (added d (snd (run_loop d es))) = []
   \<and> (ser d = None \<longrightarrow> writes (added d (snd (run_loop d es))) = [])"
proof (induction es arbitrary: d)
  case Nil
  show ?case by simp
next
  case (Cons e es)
  show ?case
  proof (cases "running d")
    case False
    then show ?thesis by simp
  next
    case True
    obtain sg d1 where m: "main_iter d e = (sg, d1)" by (cases "main_iter d e")
    note ms = main_iter_summary [of d e, unfolded m, simplified]
    show ?thesis
    proof (cases "sg = Looping")
      case False
      with True m have "run_loop d (e # es) = (sg, d1)" by (cases sg) simp_all
      with ms show ?thesis by simp
    next
      case lp: True
      with True m have r: "run_loop d (e # es) = run_loop d1 es" by simp
      from ms have t1: "trace d1 = trace d @ added d d1" by blast
      from Cons.IH [of d1]
      have t2: "trace (snd (run_loop d1 es)) = trace d1 @ added d1 (snd (run_loop d1 es))"
        by blast
      note cmp = added_compose [OF t1 t2]
      from ms Cons.IH [of d1] show ?thesis unfolding r
        by (simp add: cmp releases_append writes_append)
    qed
  qed
qed

text \<open>
  C2. Run the control loop from a state in which it is running, over any sequence of
  passes in which no exception escapes. Then the number of invocations of
  \<^verbatim>\<open>send_to_esp32\<close> is the number the reporting rule gives: one for every consumed
  result whose status differs from the last reported status, plus one for every check
  that finds more than 5 seconds elapsed since the last report. A pass that consumes a
  result with an unchanged status, and whose check does not find 5 seconds elapsed,
  sends nothing.
\<close>

theorem sends_once_per_transition_and_refresh:
  assumes "running d" and "\<not> raises (fst (run_loop d es))"
  shows "length (send_calls (added d (snd (run_loop d es))))
           = spec_sends (current_status d) (last_detection_time d) es
       \<and> (\<forall>e r. polled e = Some r \<and> status r = current_status d
              \<and> \<not> now_check e - last_detection_time d > 5
            \<longrightarrow> send_calls (added d (snd (main_iter d e))) = [])"
proof -
  have unchanged: "send_calls (added d (snd (main_iter d e))) = []"
    if "polled e = Some r" "status r = current_status d"
       "\<not> now_check e - last_detection_time d > 5" for e r
  proof -
    from that have "\<not> changed d e" by (simp add: changed_def)
    with that(3) main_iter_summary [of d e] show ?thesis by blast
  qed
  have count: "length (send_calls (added d (snd (run_loop d es))))
           = spec_sends (current_status d) (last_detection_time d) es"
    using assms
  proof (induction es arbitrary: d)
    case Nil
    then show ?case by simp
  next
    case (Cons e es)
    obtain sg d1 where m: "main_iter d e = (sg, d1)" by (cases "main_iter d e")
    note ms = main_iter_summary [of d e, unfolded m, simplified]
    have nr: "\<not> raises sg"
    proof
      assume "raises sg"
      then obtain ex where "sg = Raised ex" by (cases sg) (simp_all add: raises_def)
      with Cons.prems(1) m have "run_loop d (e # es) = (Raised ex, d1)" by simp
      with Cons.prems(2) show False by (simp add: raises_def)
    qed
    with ms have sg: "sg = (if key e AND 0xFF = 113 then Stopped else Looping)"
      and cs: "current_status d1 = polled_status d e"
      and sc: "send_calls (added d d1)
            = (if changed d e then [polled_status d e] else [])
              @ (if key e AND 0xFF \<noteq> 113
                    \<and> now_check e - (if changed d e then now_transition e
                                       else last_detection_time d) > 5
                 then [polled_status d e] else [])"
      and lt: "last_detection_time d1
            = (if key e AND 0xFF \<noteq> 113
                    \<and> now_check e - (if changed d e then now_transition e
                                       else last_detection_time d) > 5
               then now_refresh e
               else if changed d e then now_transition e else last_detection_time d)"
      by simp_all
    have ch: "changed d e = (case polled e of Some r \<Rightarrow> status r \<noteq> current_status d
                              | None \<Rightarrow> False)"
      and ps: "polled_status d e = (case polled e of Some r \<Rightarrow> status r
                              | None \<Rightarrow> current_status d)"
      by (simp_all add: changed_def polled_status_def)
    show ?case
    proof (cases "key e AND 0xFF = 113")
      case True
      with sg Cons.prems(1) m have r: "run_loop d (e # es) = (Stopped, d1)" by simp
      show ?thesis unfolding r using sc True by (simp add: Let_def ch [symmetric])
    next
      case False
      with sg Cons.prems(1) m have r: "run_loop d (e # es) = run_loop d1 es" by simp
      from ms Cons.prems(1) have r1: "running d1" by simp
      from Cons.prems(2) have nr1: "\<not> raises (fst (run_loop d1 es))" unfolding r .
      note ih = Cons.IH [OF r1 nr1]
      from ms have t1: "trace d1 = trace d @ added d d1" by blast
      from run_loop_summary [of d1 es]
      have t2: "trace (snd (run_loop d1 es)) = trace d1 @ added d1 (snd (run_loop d1 es))"
        by blast
      note cmp = added_compose [OF t1 t2]
      show ?thesis unfolding r
        using sc False ih
        by (simp add: cmp send_calls_append Let_def ch [symmetric] ps [symmetric] cs lt)
    qed
  qed
  from count unchanged show ?thesis by blast
qed

lemmas run_defs = started_def new_detector_def start_env_def idle_def
  quit_def arrives_def main_iter_def consume_def send_to_esp32_def
  calculate_fps_def emit_def Let_def access_status_def has_helmet_def has_vest_def
  ACCESS_GRANTED_def ACCESS_DENIED_def CHECKING_def newline_def added_def raises_def

theorem sends_once_per_transition_and_refresh_witness:
  "running started \<and> \<not> raises (fst (run_loop started session))
   \<and> length (send_calls (added started (snd (run_loop started session)))) = 2
   \<and> spec_sends (current_status started) (last_detection_time started) session = 2"
proof -
  have h1: "running started" by (simp add: run_defs)
  have h2: "\<not> raises (fst (run_loop started session))" by (simp add: run_defs session_def)
  have s: "spec_sends (current_status started) (last_detection_time started) session = 2"
    by (simp add: run_defs session_def)
  from sends_once_per_transition_and_refresh [OF h1 h2] s h1 h2 show ?thesis by simp
qed

subsection \<open>What goes over the wire\<close>

lemma access_status_decided: "access_status ls \<in> decided"
  by (simp add: access_status_def decided_def)

lemma polled_status_in:
  assumes "case polled e of None \<Rightarrow> True | Some r \<Rightarrow> produced r"
    and "decided \<subseteq> S" and "current_status d \<in> S"
  shows "polled_status d e \<in> S"
proof (cases "polled e")
  case None
  with assms(3) show ?thesis by (simp add: polled_status_def)
next
  case (Some r)
  with assms(1) have "status r \<in> decided" by (simp add: produced_def access_status_decided)
  with assms(2) Some show ?thesis by (auto simp: polled_status_def)
qed

lemma run_loop_statuses:
  assumes "all_produced es" and "decided \<subseteq> S" and "current_status d \<in> S"
  shows "set (writes (added d (snd (run_loop d es)))) \<subseteq> messages S
       \<and> current_status (snd (run_loop d es)) \<in> S"
  using assms(1,3)
proof (induction es arbitrary: d)
  case Nil
  then show ?case by simp
next
  case (Cons e es)
  show ?case
  proof (cases "running d")
    case False
    with Cons.prems show ?thesis by simp
  next
    case True
    obtain sg d1 where m: "main_iter d e = (sg, d1)" by (cases "main_iter d e")
    note ms = main_iter_summary [of d e, unfolded m, simplified]
    from Cons.prems(1) have pe: "case polled e of None \<Rightarrow> True | Some r \<Rightarrow> produced r"
      and ap: "all_produced es" by (simp_all add: all_produced_def)
    note ps = polled_status_in [OF pe assms(2) Cons.prems(2)]
    from ms ps Cons.prems(2) have w1: "set (writes (added d d1)) \<subseteq> messages S"
      and c1: "current_status d1 \<in> S"
      by (auto simp: messages_def)
    show ?thesis
    proof (cases "sg = Looping")
      case False
      with True m have "run_loop d (e # es) = (sg, d1)" by (cases sg) simp_all
      with w1 c1 show ?thesis by simp
    next
      case lp: True
      with True m have r: "run_loop d (e # es) = run_loop d1 es" by simp
      from ms have t1: "trace d1 = trace d @ added d d1" by blast
      from run_loop_summary [of d1 es]
      have t2: "trace (snd (run_loop d1 es)) = trace d1 @ added d1 (snd (run_loop d1 es))"
        by blast
      note cmp = added_compose [OF t1 t2]
      from Cons.IH [OF ap c1] w1 show ?thesis unfolding r
        by (simp add: cmp writes_append)
    qed
  qed
qed

lemma init_facts:
  assumes "init ie = Inr d"
  shows "running d \<and> cap_opened d \<and> current_status d = CHECKING
       \<and> trace d = [Print (if serial_open ie = Done
                            then ''Serial port COM5 opened successfully'' else ''Serial error: '')]
       \<and> ser d = (if serial_open ie = Done then Some (Serial True) else None)
       \<and> frame_count d = 0 \<and> fps_frame_count d = 0 \<and> frame_queue d = []"
  using assms
  by (auto simp: init_def new_detector_def split: outcome.splits py_exn.splits if_splits)

lemma cleanup_facts:
  "\<not> running (cleanup d)
   \<and> writes (trace (cleanup d)) = writes (trace d)
   \<and> releases (trace (cleanup d))
       = releases (trace d) @ (if cap_opened d then [CapRelease] else [])
         @ (case ser d of None \<Rightarrow> [] | Some s \<Rightarrow> if is_open s then [SerClose] else [])
         @ [DestroyAllWindows]"
  by (simp add: cleanup_def Let_def emit_def writes_append releases_append split: option.splits)

lemma program_cases:
  assumes "init ie = Inr d"
    and "run_loop (emit (Print ''Real-time detection started.'') d) es = (sg, d1)"
  shows "program ie es =
     (case sg of
        Looping \<Rightarrow> Unfinished d1
      | Stopped \<Rightarrow> Ended (emit DestroyAllWindows (cleanup d1))
      | Raised KeyboardInterrupt \<Rightarrow>
          Ended (emit DestroyAllWindows (cleanup (emit (Print ''Interrupted by user'') d1)))
      | Raised ex \<Rightarrow> Ended (emit DestroyAllWindows (emit (Print ''Error: '') (cleanup d1))))"
proof (cases sg)
  case (Raised ex)
  with assms show ?thesis by (cases ex) (simp_all add: program_def run_def)
qed (use assms in \<open>simp_all add: program_def run_def\<close>)

lemma program_writes:
  assumes "init ie = Inr d"
  shows "writes (final_trace (program ie es))
       = writes (added (emit (Print ''Real-time detection started.'') d)
           (snd (run_loop (emit (Print ''Real-time detection started.'') d) es)))"
proof -
  define d0 where "d0 = emit (Print ''Real-time detection started.'') d"
  obtain sg d1 where r: "run_loop d0 es = (sg, d1)" by (cases "run_loop d0 es")
  from init_facts [OF assms] have w0: "writes (trace d0) = []"
    by (simp add: d0_def writes_append split: if_splits)
  from run_loop_summary [of d0 es] r have "trace d1 = trace d0 @ added d0 d1" by simp
  then have "writes (trace d1) = writes (trace d0) @ writes (added d0 d1)"
    by (metis writes_append)
  with w0 have w1: "writes (trace d1) = writes (added d0 d1)" by simp
  have "writes (final_trace (program ie es)) = writes (trace d1)"
    unfolding program_cases [OF assms r [unfolded d0_def]]
  proof (cases sg)
    case (Raised ex)
    then show "writes (final_trace (case sg of
        Looping \<Rightarrow> Unfinished d1
      | Stopped \<Rightarrow> Ended (emit DestroyAllWindows (cleanup d1))
      | Raised KeyboardInterrupt \<Rightarrow>
          Ended (emit DestroyAllWindows (cleanup (emit (Print ''Interrupted by user'') d1)))
      | Raised ex \<Rightarrow> Ended (emit DestroyAllWindows (emit (Print ''Error: '') (cleanup d1)))))
      = writes (trace d1)"
      by (cases ex) (simp_all add: final_trace_def writes_append cleanup_facts)
  qed (simp_all add: final_trace_def writes_append cleanup_facts)
  with w1 r show ?thesis by (simp add: d0_def)
qed

lemma run_loop_append:
  "run_loop d (xs @ ys) =
     (case run_loop d xs of
        (Looping, d') \<Rightarrow> run_loop d' ys
      | (Stopped, d') \<Rightarrow> (Stopped, d')
      | (Raised ex, d') \<Rightarrow> (Raised ex, d'))"
proof (induction xs arbitrary: d)
  case Nil
  show ?case
  proof (cases "running d")
    case True
    then show ?thesis by simp
  next
    case False
    then have "run_loop d ys = (Stopped, d)" by (cases ys) simp_all
    with False show ?thesis by simp
  qed
next
  case (Cons e xs)
  show ?case
  proof (cases "running d")
    case False
    then show ?thesis by simp
  next
    case True
    obtain sg d1 where m: "main_iter d e = (sg, d1)" by (cases "main_iter d e")
    show ?thesis
    proof (cases sg)
      case Looping
      with True m show ?thesis by (simp add: Cons.IH)
    next
      case Stopped
      with True m show ?thesis by simp
    next
      case (Raised ex)
      with True m show ?thesis by simp
    qed
  qed
qed

text \<open>While nothing is consumed, whatever is written is the reported status, which
  does not change.\<close>

lemma idle_passes_write_reported:
  assumes "\<forall>e \<in> set es. polled e = None"
  shows "set (writes (added d (snd (run_loop d es)))) \<subseteq> {current_status d @ newline}
       \<and> current_status (snd (run_loop d es)) = current_status d"
  using assms
proof (induction es arbitrary: d)
  case Nil
  then show ?case by simp
next
  case (Cons e es)
  show ?case
  proof (cases "running d")
    case False
    then show ?thesis by simp
  next
    case True
    obtain sg d1 where m: "main_iter d e = (sg, d1)" by (cases "main_iter d e")
    note ms = main_iter_summary [of d e, unfolded m, simplified]
    from Cons.prems have ps: "polled_status d e = current_status d"
      by (simp add: polled_status_def)
    from ms ps have w1: "set (writes (added d d1)) \<subseteq> {current_status d @ newline}"
      and c1: "current_status d1 = current_status d"
      by auto
    show ?thesis
    proof (cases "sg = Looping")
      case False
      with True m have "run_loop d (e # es) = (sg, d1)" by (cases sg) simp_all
      with w1 c1 show ?thesis by simp
    next
      case lp: True
      with True m have r: "run_loop d (e # es) = run_loop d1 es" by simp
      from ms have t1: "trace d1 = trace d @ added d d1" by blast
      from run_loop_summary [of d1 es]
      have t2: "trace (snd (run_loop d1 es)) = trace d1 @ added d1 (snd (run_loop d1 es))"
        by blast
      note cmp = added_compose [OF t1 t2]
      from Cons.prems have "\<forall>e \<in> set es. polled e = None" by simp
      from Cons.IH [OF this, of d1] w1 c1 show ?thesis unfolding r
        by (simp add: cmp writes_append)
    qed
  qed
qed

text \<open>A pass that consumes a result writes nothing but the status of that result.\<close>

lemma consuming_pass_writes:
  assumes "polled e = Some r" and "produced r"
  shows "set (writes (added d (snd (main_iter d e)))) \<subseteq> messages decided"
proof -
  from assms(1) have ps: "polled_status d e = status r" by (simp add: polled_status_def)
  from assms(2) have "status r \<in> decided" by (simp add: produced_def access_status_decided)
  then have "status r @ newline \<in> messages decided" by (simp add: messages_def)
  with main_iter_summary [of d e] ps show ?thesis by auto
qed

lemma from_first_result:
  assumes "all_produced (e # es)" and "polled e = Some r"
  shows "set (writes (added d (snd (run_loop d (e # es))))) \<subseteq> messages decided"
proof (cases "running d")
  case False
  then show ?thesis by simp
next
  case True
  from assms have pr: "produced r" and ap: "all_produced es"
    by (simp_all add: all_produced_def)
  obtain sg d1 where m: "main_iter d e = (sg, d1)" by (cases "main_iter d e")
  note ms = main_iter_summary [of d e, unfolded m, simplified]
  from consuming_pass_writes [OF assms(2) pr, of d] m
  have w1: "set (writes (added d d1)) \<subseteq> messages decided" by simp
  show ?thesis
  proof (cases "sg = Looping")
    case False
    with True m have "run_loop d (e # es) = (sg, d1)" by (cases sg) simp_all
    with w1 show ?thesis by simp
  next
    case lp: True
    with True m have r: "run_loop d (e # es) = run_loop d1 es" by simp
    from lp ms have "current_status d1 = polled_status d e" by (simp add: raises_def)
    with assms(2) pr have c1: "current_status d1 \<in> decided"
      by (simp add: polled_status_def produced_def access_status_decided)
    from ms have t1: "trace d1 = trace d @ added d d1" by blast
    from run_loop_summary [of d1 es]
    have t2: "trace (snd (run_loop d1 es)) = trace d1 @ added d1 (snd (run_loop d1 es))"
      by blast
    note cmp = added_compose [OF t1 t2]
    from run_loop_statuses [OF ap _ c1] w1 show ?thesis unfolding r
      by (simp add: cmp writes_append)
  qed
qed

text \<open>A run splits at its first consumed result: before it only the reported status
  is written, from it on only the two decided statuses.\<close>

lemma run_loop_split:
  assumes "all_produced es"
  shows "set (writes (added d (snd (run_loop d (before_first_result es)))))
           \<subseteq> {current_status d @ newline}
       \<and> set (writes (added (snd (run_loop d (before_first_result es))) (snd (run_loop d es))))
           \<subseteq> messages decided
       \<and> writes (added d (snd (run_loop d es)))
           = writes (added d (snd (run_loop d (before_first_result es))))
             @ writes (added (snd (run_loop d (before_first_result es))) (snd (run_loop d es)))"
proof -
  define pre where "pre = takeWhile nothing_polled es"
  define post where "post = dropWhile nothing_polled es"
  have es: "es = pre @ post" by (simp add: pre_def post_def)
  have bf: "before_first_result es = pre" by (simp add: before_first_result_def pre_def)
  have "\<forall>e \<in> set pre. nothing_polled e" unfolding pre_def by (metis set_takeWhileD)
  then have idle: "\<forall>e \<in> set pre. polled e = None" by (simp add: nothing_polled_def)
  obtain sg dp where rp: "run_loop d pre = (sg, dp)" by (cases "run_loop d pre")
  from idle_passes_write_reported [OF idle, of d] rp
  have wp: "set (writes (added d dp)) \<subseteq> {current_status d @ newline}" by simp
  from run_loop_summary [of d pre] rp have tp: "trace dp = trace d @ added d dp" by simp
  have rest: "trace (snd (run_loop d es)) = trace dp @ added dp (snd (run_loop d es))
       \<and> set (writes (added dp (snd (run_loop d es)))) \<subseteq> messages decided"
  proof (cases "sg = Looping")
    case False
    with rp have "run_loop d es = (sg, dp)" unfolding es run_loop_append by (cases sg) simp_all
    then show ?thesis by simp
  next
    case True
    with rp have r: "run_loop d es = run_loop dp post" unfolding es run_loop_append by simp
    have t: "trace (snd (run_loop dp post)) = trace dp @ added dp (snd (run_loop dp post))"
      using run_loop_summary [of dp post] by blast
    have w: "set (writes (added dp (snd (run_loop dp post)))) \<subseteq> messages decided"
    proof (cases post)
      case Nil
      then show ?thesis by simp
    next
      case (Cons e post')
      then have "\<not> nothing_polled e" unfolding post_def by (metis hd_dropWhile list.sel(1) list.discI)
      then obtain r where pe: "polled e = Some r" by (auto simp: nothing_polled_def)
      have "set post \<subseteq> set es" unfolding post_def by (metis set_dropWhileD subsetI)
      with assms have "all_produced post" unfolding all_produced_def by blast
      with Cons have "all_produced (e # post')" by simp
      from from_first_result [OF this pe, of dp] Cons show ?thesis by simp
    qed
    from t w show ?thesis unfolding r by blast
  qed
  then have tf: "trace (snd (run_loop d es)) = trace dp @ added dp (snd (run_loop d es))"
    and wf: "set (writes (added dp (snd (run_loop d es)))) \<subseteq> messages decided" by blast+
  from added_compose [OF tp tf]
  have "writes (added d (snd (run_loop d es)))
      = writes (added d dp) @ writes (added dp (snd (run_loop d es)))"
    by (simp add: writes_append)
  with wp wf show ?thesis unfolding bf rp by simp
qed

text \<open>
  C3, as stated, fails: the program starts with the serial port open, no result arrives
  and the check of the first pass finds 6 seconds elapsed; the refresh writes the
  initial status \<^verbatim>\<open>CHECKING\<close> to the serial port.
\<close>

theorem checking_on_the_wire_counterexample:
  "writes (final_trace (program start_env [idle 6])) = [''CHECKING'' @ newline]
   \<and> ''CHECKING'' @ newline \<notin> {''ACCESS_GRANTED'' @ newline, ''ACCESS_DENIED'' @ newline}"
  by (simp add: run_defs program_def init_def run_def final_trace_def)

text \<open>
  C3, amended. When every consumed result was built by \<^verbatim>\<open>process_frames\<close>, every
  message written to the serial channel in an execution carries a status in
  \<^verbatim>\<open>ACCESS_GRANTED\<close>, \<^verbatim>\<open>ACCESS_DENIED\<close>, \<^verbatim>\<open>CHECKING\<close>, and \<^verbatim>\<open>CHECKING\<close> is written
  only by the periodic refresh while no result has been consumed. In detail: the
  detector starts with the status \<^verbatim>\<open>CHECKING\<close>; a pass that consumes nothing makes no
  transition send, and what its refresh writes is the reported status; a pass that
  consumes a result writes only \<^verbatim>\<open>ACCESS_GRANTED\<close> or \<^verbatim>\<open>ACCESS_DENIED\<close>, whatever was
  reported before, and leaves the reported status one of these two; from such a state
  every later message carries one of these two. So the messages of a run are those of the
  passes before the first consumed result, which carry the status reported at the
  start, followed by messages that carry \<^verbatim>\<open>ACCESS_GRANTED\<close> or \<^verbatim>\<open>ACCESS_DENIED\<close>.
\<close>

theorem wire_statuses:
  assumes "all_produced es"
  shows "set (writes (final_trace (program ie es))) \<subseteq> messages (insert CHECKING decided)
       \<and> (current_status d \<in> decided \<longrightarrow>
            set (writes (added d (snd (run_loop d es)))) \<subseteq> messages decided
            \<and> current_status (snd (run_loop d es)) \<in> decided)
       \<and> (\<forall>e r d'. polled e = Some r \<and> produced r \<and> main_iter d e = (Looping, d')
            \<longrightarrow> current_status d' \<in> decided)
       \<and> (init ie = Inr d \<longrightarrow> current_status d = CHECKING \<and> writes (trace d) = [])
       \<and> (\<forall>e. polled e = None \<longrightarrow>
            added d (snd (consume d e)) = []
            \<and> set (writes (added d (snd (main_iter d e)))) \<subseteq> {current_status d @ newline})
       \<and> (\<forall>e r. polled e = Some r \<and> produced r \<longrightarrow>
            set (writes (added d (snd (main_iter d e)))) \<subseteq> messages decided)
       \<and> set (writes (added d (snd (run_loop d (before_first_result es)))))
           \<subseteq> {current_status d @ newline}
       \<and> set (writes (added (snd (run_loop d (before_first_result es))) (snd (run_loop d es))))
           \<subseteq> messages decided
       \<and> writes (added d (snd (run_loop d es)))
           = writes (added d (snd (run_loop d (before_first_result es))))
             @ writes (added (snd (run_loop d (before_first_result es))) (snd (run_loop d es)))"
proof -
  have p1: "set (writes (final_trace (program ie es))) \<subseteq> messages (insert CHECKING decided)"
  proof (cases "init ie")
    case (Inl ex)
    then show ?thesis by (cases ex) (simp_all add: program_def final_trace_def)
  next
    case (Inr d0)
    from init_facts [OF Inr]
    have "current_status (emit (Print ''Real-time detection started.'') d0)
            \<in> insert CHECKING decided" by simp
    from run_loop_statuses [OF assms _ this] show ?thesis
      by (auto simp: program_writes [OF Inr])
  qed
  have p2: "set (writes (added d (snd (run_loop d es)))) \<subseteq> messages decided
            \<and> current_status (snd (run_loop d es)) \<in> decided"
    if "current_status d \<in> decided"
    using run_loop_statuses [OF assms _ that] by simp
  have p3: "current_status d' \<in> decided"
    if "polled e = Some r" "produced r" "main_iter d e = (Looping, d')" for e r d'
  proof -
    from that(3) main_iter_summary [of d e]
    have "current_status d' = polled_status d e" by (simp add: raises_def)
    with that(1,2) show ?thesis
      by (simp add: polled_status_def produced_def access_status_decided)
  qed
  have p4: "current_status d = CHECKING \<and> writes (trace d) = []" if "init ie = Inr d"
    using init_facts [OF that] by simp
  have p5: "added d (snd (consume d e)) = []
            \<and> set (writes (added d (snd (main_iter d e)))) \<subseteq> {current_status d @ newline}"
    if "polled e = None" for e
  proof -
    from that have "polled_status d e = current_status d" by (simp add: polled_status_def)
    with main_iter_summary [of d e] that show ?thesis by (simp add: consume_nothing)
  qed
  have p6: "set (writes (added d (snd (main_iter d e)))) \<subseteq> messages decided"
    if "polled e = Some r" "produced r" for e r
    using that by (rule consuming_pass_writes)
  note p7 = run_loop_split [OF assms, of d]
  show ?thesis
  proof (intro conjI)
    show "set (writes (final_trace (program ie es))) \<subseteq> messages (insert CHECKING decided)"
      by (rule p1)
    show "current_status d \<in> decided \<longrightarrow>
            set (writes (added d (snd (run_loop d es)))) \<subseteq> messages decided
            \<and> current_status (snd (run_loop d es)) \<in> decided"
      using p2 by blast
    show "\<forall>e r d'. polled e = Some r \<and> produced r \<and> main_iter d e = (Looping, d')
            \<longrightarrow> current_status d' \<in> decided"
      using p3 by blast
    show "init ie = Inr d \<longrightarrow> current_status d = CHECKING \<and> writes (trace d) = []"
      using p4 by blast
    show "\<forall>e. polled e = None \<longrightarrow>
            added d (snd (consume d e)) = []
            \<and> set (writes (added d (snd (main_iter d e)))) \<subseteq> {current_status d @ newline}"
      using p5 by blast
    show "\<forall>e r. polled e = Some r \<and> produced r \<longrightarrow>
            set (writes (added d (snd (main_iter d e)))) \<subseteq> messages decided"
      using p6 by blast
    from p7 show "set (writes (added d (snd (run_loop d (before_first_result es)))))
           \<subseteq> {current_status d @ newline}" by blast
    from p7 show "set (writes (added (snd (run_loop d (before_first_result es)))
           (snd (run_loop d es)))) \<subseteq> messages decided" by blast
    from p7 show "writes (added d (snd (run_loop d es)))
           = writes (added d (snd (run_loop d (before_first_result es))))
             @ writes (added (snd (run_loop d (before_first_result es))) (snd (run_loop d es)))"
      by blast
  qed
qed

theorem wire_statuses_witness:
  "all_produced late_session
   \<and> init start_env = Inr started
   \<and> before_first_result late_session = [idle 6]
   \<and> set (writes (final_trace (program start_env late_session)))
        \<subseteq> messages (insert CHECKING decided)
   \<and> writes (final_trace (program start_env late_session))
        = [''CHECKING'' @ newline, ''ACCESS_DENIED'' @ newline, ''ACCESS_DENIED'' @ newline]
   \<and> writes (added started (snd (run_loop started (before_first_result late_session))))
        = [''CHECKING'' @ newline]
   \<and> set (writes (added (snd (run_loop started (before_first_result late_session)))
        (snd (run_loop started late_session)))) \<subseteq> messages decided"
proof -
  have h: "all_produced late_session"
    by (simp add: all_produced_def late_session_def arrives_def idle_def quit_def produced_def)
  have i: "init start_env = Inr started"
    by (simp add: init_def started_def start_env_def)
  have b: "before_first_result late_session = [idle 6]"
    by (simp add: before_first_result_def late_session_def nothing_polled_def arrives_def
        idle_def quit_def)
  have w: "writes (final_trace (program start_env late_session))
        = [''CHECKING'' @ newline, ''ACCESS_DENIED'' @ newline, ''ACCESS_DENIED'' @ newline]"
    by (simp add: run_defs late_session_def program_def init_def run_def cleanup_def
        final_trace_def)
  have p: "writes (added started (snd (run_loop started [idle 6]))) = [''CHECKING'' @ newline]"
    by (simp add: run_defs)
  from wire_statuses [OF h, of start_env started] h i b w p show ?thesis
    unfolding b by blast
qed


section \<open>Serial failures\<close>

text \<open>
  C7. If opening the serial port fails at startup, the detector is built without a
  port; from then on every call of \<^verbatim>\<open>send_to_esp32\<close> writes nothing, prints nothing
  and raises nothing, whatever the loop does. A write or flush that fails with a serial
  error in mid-run is caught and printed, no field of the detector changes, and the next
  call behaves exactly as it would have without the failure.
\<close>

theorem serial_failures_tolerated:
  "(model_load ie = Done \<and> cam_opens ie \<and> serial_open ie = Raises SerialException \<longrightarrow>
      (\<exists>d0. init ie = Inr d0 \<and> ser d0 = None))
   \<and> (ser d = None \<longrightarrow>
        send_to_esp32 d st wr fl = (None, emit (SendCall st) d)
        \<and> ser (snd (run_loop d es)) = None
        \<and> writes (added d (snd (run_loop d es))) = [])
   \<and> (ser d = Some (Serial True)
        \<and> (wr = Raises SerialException \<or> wr = Done \<and> fl = Raises SerialException) \<longrightarrow>
        fst (send_to_esp32 d st wr fl) = None
        \<and> snd (send_to_esp32 d st wr fl) = d\<lparr>trace := trace (snd (send_to_esp32 d st wr fl))\<rparr>
        \<and> last (trace (snd (send_to_esp32 d st wr fl))) = Print ''Serial communication error: ''
        \<and> (\<forall>st' wr' fl'.
              fst (send_to_esp32 (snd (send_to_esp32 d st wr fl)) st' wr' fl')
                = fst (send_to_esp32 d st' wr' fl')
              \<and> added (snd (send_to_esp32 d st wr fl))
                    (snd (send_to_esp32 (snd (send_to_esp32 d st wr fl)) st' wr' fl'))
                = added d (snd (send_to_esp32 d st' wr' fl'))))"
proof -
  have a: "\<exists>d0. init ie = Inr d0 \<and> ser d0 = None"
    if "model_load ie = Done" "cam_opens ie" "serial_open ie = Raises SerialException"
    using that by (simp add: init_def new_detector_def)
  have b: "send_to_esp32 d st wr fl = (None, emit (SendCall st) d)
        \<and> ser (snd (run_loop d es)) = None
        \<and> writes (added d (snd (run_loop d es))) = []" if "ser d = None"
    using that send_degraded [OF that] run_loop_summary [of d es] by simp
  have c: "fst (send_to_esp32 d st wr fl) = None
        \<and> snd (send_to_esp32 d st wr fl) = d\<lparr>trace := trace (snd (send_to_esp32 d st wr fl))\<rparr>
        \<and> last (trace (snd (send_to_esp32 d st wr fl))) = Print ''Serial communication error: ''
        \<and> (\<forall>st' wr' fl'.
              fst (send_to_esp32 (snd (send_to_esp32 d st wr fl)) st' wr' fl')
                = fst (send_to_esp32 d st' wr' fl')
              \<and> added (snd (send_to_esp32 d st wr fl))
                    (snd (send_to_esp32 (snd (send_to_esp32 d st wr fl)) st' wr' fl'))
                = added d (snd (send_to_esp32 d st' wr' fl')))"
    if "ser d = Some (Serial True)"
      "wr = Raises SerialException \<or> wr = Done \<and> fl = Raises SerialException"
  proof -
    have "ser (snd (send_to_esp32 d st wr fl)) = ser d" using send_keeps by blast
    from send_same_port [OF this] send_write_error [OF that] show ?thesis by blast
  qed
  show ?thesis
  proof (intro conjI impI)
    assume "model_load ie = Done \<and> cam_opens ie \<and> serial_open ie = Raises SerialException"
    then show "\<exists>d0. init ie = Inr d0 \<and> ser d0 = None" using a by blast
  next
    assume "ser d = None"
    from b [OF this] show "send_to_esp32 d st wr fl = (None, emit (SendCall st) d)"
      and "ser (snd (run_loop d es)) = None"
      and "writes (added d (snd (run_loop d es))) = []" by blast+
  next
    assume h: "ser d = Some (Serial True)
        \<and> (wr = Raises SerialException \<or> wr = Done \<and> fl = Raises SerialException)"
    then have h1: "ser d = Some (Serial True)"
      and h2: "wr = Raises SerialException \<or> wr = Done \<and> fl = Raises SerialException"
      by blast+
    from c [OF h1 h2] show "fst (send_to_esp32 d st wr fl) = None"
      and "snd (send_to_esp32 d st wr fl) = d\<lparr>trace := trace (snd (send_to_esp32 d st wr fl))\<rparr>"
      and "last (trace (snd (send_to_esp32 d st wr fl))) = Print ''Serial communication error: ''"
      and "\<forall>st' wr' fl'.
              fst (send_to_esp32 (snd (send_to_esp32 d st wr fl)) st' wr' fl')
                = fst (send_to_esp32 d st' wr' fl')
              \<and> added (snd (send_to_esp32 d st wr fl))
                    (snd (send_to_esp32 (snd (send_to_esp32 d st wr fl)) st' wr' fl'))
                = added d (snd (send_to_esp32 d st' wr' fl'))"
      by blast+
  qed
qed

theorem serial_failures_tolerated_witness:
  "model_load (start_env\<lparr>serial_open := Raises SerialException\<rparr>) = Done
   \<and> cam_opens (start_env\<lparr>serial_open := Raises SerialException\<rparr>)
   \<and> serial_open (start_env\<lparr>serial_open := Raises SerialException\<rparr>) = Raises SerialException
   \<and> init (start_env\<lparr>serial_open := Raises SerialException\<rparr>) = Inr started_degraded
   \<and> ser started_degraded = None
   \<and> send_to_esp32 started_degraded ''ACCESS_DENIED'' (Raises OtherException) Done
        = (None, emit (SendCall ''ACCESS_DENIED'') started_degraded)
   \<and> ser started = Some (Serial True)
   \<and> fst (send_to_esp32 started ''ACCESS_DENIED'' (Raises SerialException) Done) = None"
proof -
  have i: "init (start_env\<lparr>serial_open := Raises SerialException\<rparr>) = Inr started_degraded"
    by (simp add: init_def started_degraded_def start_env_def new_detector_def)
  have h1: "ser started_degraded = None" by (simp add: started_degraded_def new_detector_def)
  have h2: "ser started = Some (Serial True)" by (simp add: started_def new_detector_def)
  have e: "model_load (start_env\<lparr>serial_open := Raises SerialException\<rparr>) = Done"
    "cam_opens (start_env\<lparr>serial_open := Raises SerialException\<rparr>)"
    "serial_open (start_env\<lparr>serial_open := Raises SerialException\<rparr>) = Raises SerialException"
    by (simp_all add: start_env_def)
  from serial_failures_tolerated [of "start_env\<lparr>serial_open := Raises SerialException\<rparr>"
      started_degraded "''ACCESS_DENIED''" "Raises OtherException" Done "[]"]
    serial_failures_tolerated [of start_env started "''ACCESS_DENIED''"
      "Raises SerialException" Done "[]"]
    i h1 h2 e
  show ?thesis by blast
qed

text \<open>
  C10. When a consumed result has a status that differs from the reported one, and the
  serial library raises nothing but serial errors, the control loop sets
  \<^verbatim>\<open>current_status\<close> and \<^verbatim>\<open>last_detection_time\<close> to the new values whether the send
  wrote the message, did nothing for want of a port, or failed. The send is invoked
  once; after it no pass sends again unless it consumes a result with yet another
  status or its check finds more than 5 seconds elapsed since the transition.
\<close>

theorem transition_recorded_regardless_of_send:
  assumes "polled e = Some r" and "status r \<noteq> current_status d"
    and "serial_error_only (send1_write e)" and "serial_error_only (send1_flush e)"
  shows "current_status (snd (consume d e)) = status r
       \<and> last_detection_time (snd (consume d e)) = now_transition e
       \<and> send_calls (added d (snd (consume d e))) = [status r]
       \<and> (\<forall>e'. \<not> changed (snd (consume d e)) e' \<and> \<not> now_check e' - now_transition e > 5
             \<longrightarrow> send_calls (added (snd (consume d e)) (snd (main_iter (snd (consume d e)) e'))) = [])"
proof -
  obtain x d1 where s: "send_to_esp32 d (status r) (send1_write e) (send1_flush e) = (x, d1)"
    by (cases "send_to_esp32 d (status r) (send1_write e) (send1_flush e)")
  from send_no_raise [OF assms(3,4), of d "status r"] s have x: "x = None" by simp
  define d0 where "d0 = d1\<lparr>current_status := status r, last_detection_time := now_transition e\<rparr>"
  from x s have cc: "consume d e = (case calculate_fps d0 (now_fps e) of
             (Some ex, d2) \<Rightarrow> (Some ex, d2)
           | (None, d2) \<Rightarrow> (None, emit (ImShow (annotated r)) d2))"
    by (simp add: consume_changed [OF assms(1,2)] d0_def)
  from after_fps [OF cc] have u: "current_status (snd (consume d e)) = status r"
    "last_detection_time (snd (consume d e)) = now_transition e"
    by (simp_all add: d0_def)
  from assms(1,2) have "changed d e" "polled_status d e = status r"
    by (simp_all add: changed_def polled_status_def)
  with consume_summary [of d e] have sc: "send_calls (added d (snd (consume d e))) = [status r]"
    by simp
  have later: "send_calls (added (snd (consume d e)) (snd (main_iter (snd (consume d e)) e'))) = []"
    if "\<not> changed (snd (consume d e)) e'" "\<not> now_check e' - now_transition e > 5" for e'
    using that main_iter_summary [of "snd (consume d e)" e'] u(2) by simp
  from u sc later show ?thesis by blast
qed

theorem transition_recorded_regardless_of_send_witness:
  "polled ((arrives [] 1)\<lparr>send1_write := Raises SerialException\<rparr>)
     = Some \<lparr>annotated = 0, status = ''ACCESS_DENIED'', labels = []\<rparr>
   \<and> ''ACCESS_DENIED'' \<noteq> current_status started
   \<and> serial_error_only (send1_write ((arrives [] 1)\<lparr>send1_write := Raises SerialException\<rparr>))
   \<and> serial_error_only (send1_flush ((arrives [] 1)\<lparr>send1_write := Raises SerialException\<rparr>))
   \<and> current_status (snd (consume started
         ((arrives [] 1)\<lparr>send1_write := Raises SerialException\<rparr>))) = ''ACCESS_DENIED''
   \<and> last_detection_time (snd (consume started
         ((arrives [] 1)\<lparr>send1_write := Raises SerialException\<rparr>))) = 1
   \<and> writes (trace (snd (consume started
         ((arrives [] 1)\<lparr>send1_write := Raises SerialException\<rparr>)))) = []"
proof -
  define e where "e = (arrives [] 1)\<lparr>send1_write := Raises SerialException\<rparr>"
  define r where "r = \<lparr>annotated = 0, status = ''ACCESS_DENIED'', labels = []\<rparr>"
  have h1: "polled e = Some r" by (simp add: e_def r_def run_defs)
  have h2: "status r \<noteq> current_status started" by (simp add: r_def run_defs)
  have h3: "serial_error_only (send1_write e)" and h4: "serial_error_only (send1_flush e)"
    by (simp_all add: e_def serial_error_only_def run_defs)
  have w: "writes (trace (snd (consume started e))) = []" by (simp add: e_def run_defs)
  have n: "now_transition e = 1" and sr: "status r = ''ACCESS_DENIED''"
    by (simp_all add: e_def r_def run_defs)
  from transition_recorded_regardless_of_send [OF h1 h2 h3 h4] h1 h2 h3 h4 w
  show ?thesis unfolding n sr unfolding e_def r_def by blast
qed

section \<open>Shutdown\<close>

lemma run_loop_Stopped:
  assumes "running d" and "fst (run_loop d es) = Stopped"
  shows "\<exists>q \<in> set es. key q AND 0xFF = 113"
  using assms
proof (induction es arbitrary: d)
  case Nil
  then show ?case by simp
next
  case (Cons e es)
  obtain sg d1 where m: "main_iter d e = (sg, d1)" by (cases "main_iter d e")
  note ms = main_iter_summary [of d e, unfolded m, simplified]
  show ?case
  proof (cases sg)
    case Looping
    with Cons.prems m have "fst (run_loop d1 es) = Stopped" by simp
    moreover from ms Cons.prems(1) have "running d1" by simp
    ultimately show ?thesis using Cons.IH by auto
  next
    case Stopped
    with ms have "key e AND 0xFF = 113" by (simp add: raises_def split: if_splits)
    then show ?thesis by simp
  next
    case (Raised ex)
    with Cons.prems m show ?thesis by simp
  qed
qed

text \<open>
  C8, as stated, fails: after the quit key the display is torn down twice, and when the
  serial port could not be opened it is not closed at all.
\<close>

theorem release_counts_counterexample:
  "count_list (final_trace (program start_env [quit 1])) DestroyAllWindows = 2
   \<and> count_list (final_trace (program (start_env\<lparr>serial_open := Raises SerialException\<rparr>)
        [quit 1])) SerClose = 0"
  by (simp add: run_defs program_def init_def run_def cleanup_def final_trace_def)

text \<open>
  C8, amended. When the quit key ends the main loop, \<^verbatim>\<open>cleanup\<close> clears the running
  flag, so that each worker exits on its next pass; the camera is released exactly once;
  the serial port is closed exactly once when it had been opened and not at all
  otherwise; \<^verbatim>\<open>destroyAllWindows\<close> is called twice, by \<^verbatim>\<open>cleanup\<close> and by the
  \<^verbatim>\<open>finally\<close> clause of the main block.
\<close>

theorem quit_releases:
  assumes "init ie = Inr d0"
    and "run_loop (emit (Print ''Real-time detection started.'') d0) es = (Stopped, d1)"
  shows "program ie es = Ended (emit DestroyAllWindows (cleanup d1))
       \<and> (\<exists>q \<in> set es. key q AND 0xFF = 113)
       \<and> \<not> running (cleanup d1)
       \<and> capture_iter (cleanup d1) ce = Exited (cleanup d1)
       \<and> process_iter (cleanup d1) pe = Exited (cleanup d1)
       \<and> releases (final_trace (program ie es))
           = [CapRelease] @ (if serial_open ie = Done then [SerClose] else [])
             @ [DestroyAllWindows, DestroyAllWindows]"
proof -
  define s0 where "s0 = emit (Print ''Real-time detection started.'') d0"
  note i = init_facts [OF assms(1)]
  from i have r0: "running s0" and c0: "cap_opened s0"
    and t0: "releases (trace s0) = []"
    and p0: "ser s0 = (if serial_open ie = Done then Some (Serial True) else None)"
    by (simp_all add: s0_def releases_append)
  from assms(2) have rl: "run_loop s0 es = (Stopped, d1)" by (simp add: s0_def)
  from run_loop_summary [of s0 es] rl
  have k: "ser d1 = ser s0" "cap_opened d1 = cap_opened s0"
    "trace d1 = trace s0 @ added s0 d1" "releases (added s0 d1) = []"
    by simp_all
  from k(3) have "releases (trace d1) = releases (trace s0) @ releases (added s0 d1)"
    by (metis releases_append)
  with t0 k(4) have r1: "releases (trace d1) = []" by simp
  have pr: "program ie es = Ended (emit DestroyAllWindows (cleanup d1))"
    using program_cases [OF assms] by simp
  have q: "\<exists>q \<in> set es. key q AND 0xFF = 113"
    using run_loop_Stopped [OF r0] rl by simp
  have nr: "\<not> running (cleanup d1)" using cleanup_facts by blast
  have rel: "releases (final_trace (program ie es))
           = [CapRelease] @ (if serial_open ie = Done then [SerClose] else [])
             @ [DestroyAllWindows, DestroyAllWindows]"
    unfolding pr using cleanup_facts [of d1] r1 k(1,2) c0 p0
    by (simp add: final_trace_def releases_append)
  from pr q nr rel show ?thesis
    by (simp add: capture_iter_def process_iter_def)
qed

theorem quit_releases_witness:
  "init start_env = Inr started
   \<and> run_loop (emit (Print ''Real-time detection started.'') started) [quit 1]
       = (Stopped, emit (Print ''Real-time detection started.'') started)
   \<and> releases (final_trace (program start_env [quit 1]))
       = [CapRelease, SerClose, DestroyAllWindows, DestroyAllWindows]"
proof -
  have h1: "init start_env = Inr started"
    by (simp add: init_def started_def start_env_def)
  have h2: "run_loop (emit (Print ''Real-time detection started.'') started) [quit 1]
       = (Stopped, emit (Print ''Real-time detection started.'') started)"
    by (simp add: run_defs)
  have s: "serial_open start_env = Done" by (simp add: start_env_def)
  from quit_releases [OF h1 h2, of "reads 0" "\<lparr>frame_polled = None, boxes = None, plotted = 0, results_taken_before = 0, results_taken_between = 0\<rparr>"]
  have "releases (final_trace (program start_env [quit 1]))
           = [CapRelease] @ (if serial_open start_env = Done then [SerClose] else [])
             @ [DestroyAllWindows, DestroyAllWindows]" by blast
  then have "releases (final_trace (program start_env [quit 1]))
       = [CapRelease, SerClose, DestroyAllWindows, DestroyAllWindows]"
    unfolding s by simp
  with h1 h2 show ?thesis by blast
qed


end
